theory Spec2Isabelle
  imports Complex_Main
begin

section \<open>Cell values\<close>

text \<open>
  A grid cell holds a JavaScript number; \<open>Board.getCell\<close> additionally answers \<open>null\<close>
  for a position outside the grid. Numbers are modelled as unbounded integers (the game
  only stores 0 and small powers of two), \<open>null\<close> as \<open>Null\<close>.
\<close>

datatype cell = Null | Num int

text \<open>The numeric value JavaScript arithmetic uses for a cell: \<open>null\<close> counts as 0.\<close>

fun toNumber :: "cell \<Rightarrow> int" where
  "toNumber Null = 0"
| "toNumber (Num v) = v"

section \<open>Board\<close>

record board =
  size_b :: nat
  grid :: "cell list list"

text \<open>
  \<open>initialize\<close>: \<^verbatim>\<open>Array(size).fill(null).map(() => Array(size).fill(0))\<close>.
\<close>

definition initialize :: "board \<Rightarrow> board" where
  "initialize b =
     b\<lparr>grid := map (\<lambda>_. replicate (size_b b) (Num 0)) (replicate (size_b b) Null)\<rparr>"

text \<open>The constructor: set the size, start from an empty array, then \<open>initialize\<close>.\<close>

definition new_Board :: "nat \<Rightarrow> board" where
  "new_Board n = initialize \<lparr>size_b = n, grid = []\<rparr>"

text \<open>
  The shape the constructor establishes and every method keeps: \<open>size\<close> rows of \<open>size\<close>
  cells. In-range reads \<open>grid[row][col]\<close> are only meaningful on such a board.
\<close>

definition wf_board :: "board \<Rightarrow> bool" where
  "wf_board b \<longleftrightarrow>
     length (grid b) = size_b b \<and> list_all (\<lambda>r. length r = size_b b) (grid b)"

definition getCell :: "board \<Rightarrow> int \<Rightarrow> int \<Rightarrow> cell" where
  "getCell b row col =
     (if row < 0 \<or> row \<ge> int (size_b b) \<or> col < 0 \<or> col \<ge> int (size_b b)
      then Null
      else grid b ! nat row ! nat col)"

definition setCell :: "board \<Rightarrow> int \<Rightarrow> int \<Rightarrow> cell \<Rightarrow> board" where
  "setCell b row col v =
     (if row \<ge> 0 \<and> row < int (size_b b) \<and> col \<ge> 0 \<and> col < int (size_b b)
      then b\<lparr>grid := (grid b)[nat row := (grid b ! nat row)[nat col := v]]\<rparr>
      else b)"

text \<open>
  \<open>getEmptyCells\<close>: the positions holding 0, in row-major order. The two nested
  \<open>for\<close> loops run over \<open>0 .. size - 1\<close>.
\<close>

definition getEmptyCells :: "board \<Rightarrow> (nat \<times> nat) list" where
  "getEmptyCells b =
     fold (\<lambda>row emptyCells.
        fold (\<lambda>col emptyCells.
            if grid b ! row ! col = Num 0 then emptyCells @ [(row, col)] else emptyCells)
          [0..<size_b b] emptyCells)
       [0..<size_b b] []"

definition isEmpty :: "board \<Rightarrow> bool" where
  "isEmpty b \<longleftrightarrow> length (getEmptyCells b) = size_b b * size_b b"

definition isFull :: "board \<Rightarrow> bool" where
  "isFull b \<longleftrightarrow> length (getEmptyCells b) = 0"

text \<open>
  \<open>clone\<close> builds a new board of the same size and copies every cell into it with
  \<open>setCell\<close>/\<open>getCell\<close>; the result is the state of the new object.
\<close>

definition clone :: "board \<Rightarrow> board" where
  "clone b =
     fold (\<lambda>row newBoard.
        fold (\<lambda>col newBoard.
            setCell newBoard (int row) (int col) (getCell b (int row) (int col)))
          [0..<size_b b] newBoard)
       [0..<size_b b] (new_Board (size_b b))"

text \<open>\<open>equals\<close>: sizes first, then cell by cell, answering false at the first difference.\<close>

definition equals :: "board \<Rightarrow> board \<Rightarrow> bool" where
  "equals b otherBoard =
     (if size_b otherBoard \<noteq> size_b b then False
      else list_all (\<lambda>row.
             list_all (\<lambda>col. getCell b (int row) (int col) = getCell otherBoard (int row) (int col))
               [0..<size_b b])
             [0..<size_b b])"

section \<open>MoveProcessor\<close>

text \<open>
  \<open>mergeLine\<close> is a \<open>while\<close> loop over an index \<open>i\<close> with two accumulators, the
  output array \<open>merged\<close> and \<open>score\<close>. \<open>line[i] * 2\<close> is numeric.
\<close>

function mergeLine_loop :: "cell list \<Rightarrow> nat \<Rightarrow> cell list \<Rightarrow> int \<Rightarrow> cell list \<times> int" where
  "mergeLine_loop line i merged score =
     (if i < length line then
        (if int i < int (length line) - 1 \<and> line ! i = line ! (i + 1) then
           (let mergedValue = Num (toNumber (line ! i) * 2)
            in mergeLine_loop line (i + 2) (merged @ [mergedValue]) (score + toNumber mergedValue))
         else mergeLine_loop line (i + 1) (merged @ [line ! i]) score)
      else (merged, score))"
  by pat_completeness auto
termination
  by (relation "measure (\<lambda>(line, i, merged, score). length line - i)") auto

declare mergeLine_loop.simps [simp del]

definition mergeLine :: "cell list \<Rightarrow> cell list \<times> int" where
  "mergeLine line = mergeLine_loop line 0 [] 0"

record result =
  moved :: bool
  score :: int

text \<open>The first inner loop of \<open>moveLeft\<close>: the non-zero cells of a row, left to right.\<close>

definition collectLine :: "board \<Rightarrow> nat \<Rightarrow> cell list" where
  "collectLine b row =
     fold (\<lambda>col line.
        (let v = getCell b (int row) (int col)
         in if v \<noteq> Num 0 then line @ [v] else line))
       [0..<size_b b] []"

text \<open>
  The second inner loop: write the merged line back, padded with 0; a cell is written, and
  \<open>moved\<close> raised, only where the new value differs.
\<close>

definition fillRow :: "board \<Rightarrow> nat \<Rightarrow> cell list \<Rightarrow> bool \<Rightarrow> board \<times> bool" where
  "fillRow b row mline mv =
     fold (\<lambda>col (b, mv).
        (let newValue = (if col < length mline then mline ! col else Num 0)
         in if getCell b (int row) (int col) \<noteq> newValue
            then (setCell b (int row) (int col) newValue, True)
            else (b, mv)))
       [0..<size_b b] (b, mv)"

definition moveLeft :: "board \<Rightarrow> board \<times> result" where
  "moveLeft b =
     (let (b', mv, sc) =
        fold (\<lambda>row (b, mv, sc).
           (let line = collectLine b row;
                merged = mergeLine line;
                sc' = sc + snd merged;
                (b', mv') = fillRow b row (fst merged) mv
            in (b', mv', sc')))
          [0..<size_b b] (b, False, 0)
      in (b', \<lparr>moved = mv, score = sc\<rparr>))"

text \<open>
  \<open>reverseRows\<close> swaps cell \<open>col\<close> with cell \<open>size - 1 - col\<close> in place, for every
  \<open>col < size / 2\<close>: these are the columns \<open>0 .. (size + 1) div 2 - 1\<close> (on an odd
  size the middle cell is swapped with itself).
\<close>

definition reverseRows :: "board \<Rightarrow> board" where
  "reverseRows b =
     fold (\<lambda>row b.
        fold (\<lambda>col b.
           (let temp = getCell b (int row) (int col);
                b1 = setCell b (int row) (int col)
                       (getCell b (int row) (int (size_b b) - 1 - int col));
                b2 = setCell b1 (int row) (int (size_b b) - 1 - int col) temp
            in b2))
          [0..<(size_b b + 1) div 2] b)
       [0..<size_b b] b"

definition transpose_b :: "board \<Rightarrow> board" where
  "transpose_b b =
     fold (\<lambda>row b.
        fold (\<lambda>col b.
           (let temp = getCell b (int row) (int col);
                b1 = setCell b (int row) (int col) (getCell b (int col) (int row));
                b2 = setCell b1 (int col) (int row) temp
            in b2))
          [row + 1..<size_b b] b)
       [0..<size_b b] b"

definition moveRight :: "board \<Rightarrow> board \<times> result" where
  "moveRight b =
     (let b1 = reverseRows b;
          (b2, res) = moveLeft b1;
          b3 = reverseRows b2
      in (b3, res))"

definition moveUp :: "board \<Rightarrow> board \<times> result" where
  "moveUp b =
     (let b1 = transpose_b b;
          (b2, res) = moveLeft b1;
          b3 = transpose_b b2
      in (b3, res))"

definition moveDown :: "board \<Rightarrow> board \<times> result" where
  "moveDown b =
     (let b1 = transpose_b b;
          (b2, res) = moveRight b1;
          b3 = transpose_b b2
      in (b3, res))"

section \<open>Board objects in a store\<close>

text \<open>
  \<open>MoveProcessor.canMove\<close> and the engine hold references to \<open>Board\<close> objects, and
  \<open>clone\<close> allocates a new one. The store lists the state of every allocated board; a
  reference is an index into it, and a new object takes the next free index.
\<close>

type_synonym ref = nat
type_synonym store = "board list"

text \<open>Run a routine that mutates one board on the object behind a reference.\<close>

definition call :: "(board \<Rightarrow> board \<times> 'a) \<Rightarrow> store \<Rightarrow> ref \<Rightarrow> store \<times> 'a" where
  "call f h r = (let (b', x) = f (h ! r) in (h[r := b'], x))"

text \<open>\<open>board.clone()\<close>: the copy is a fresh object.\<close>

definition clone_ref :: "store \<Rightarrow> ref \<Rightarrow> store \<times> ref" where
  "clone_ref h r = (h @ [clone (h ! r)], length h)"

text \<open>
  An argument passed where a direction is expected: a string, or any other JavaScript value.
\<close>

datatype input = Str string | Other

text \<open>
  \<open>MoveProcessor.canMove\<close>: clone, run the move for the direction on the clone, answer its
  \<open>moved\<close> flag; the \<open>default\<close> branch answers false.
\<close>

definition canMove :: "store \<Rightarrow> ref \<Rightarrow> input \<Rightarrow> store \<times> bool" where
  "canMove h board direction =
     (let (h1, testBoard) = clone_ref h board
      in if direction = Str ''left'' then
           (let (h2, res) = call moveLeft h1 testBoard in (h2, moved res))
         else if direction = Str ''right'' then
           (let (h2, res) = call moveRight h1 testBoard in (h2, moved res))
         else if direction = Str ''up'' then
           (let (h2, res) = call moveUp h1 testBoard in (h2, moved res))
         else if direction = Str ''down'' then
           (let (h2, res) = call moveDown h1 testBoard in (h2, moved res))
         else (h1, False))"

section \<open>Random tiles\<close>

text \<open>
  \<open>Math.random()\<close> is the only source of randomness. Its successive results are taken
  from a sequence of rationals supplied by the environment; each call consumes one.
\<close>

type_synonym rng = "nat \<Rightarrow> rat"

definition random :: "rng \<Rightarrow> rat \<times> rng" where
  "random g = (g 0, \<lambda>i. g (Suc i))"

datatype error =
    TypeError
  | InvalidGridSize int
  | InvalidInitialTileValue cell
  | InvalidInitialTileCount nat
  | InvalidMoveResultScore int

text \<open>
  \<open>addRandomTile\<close>: no empty cell, no tile (and no draw). Otherwise the first draw picks
  the index \<open>floor (random * length)\<close> into the empty cells, the second draw picks 2
  (below 0.9, taken as the rational 9/10) or 4. An index outside the array reads
  \<open>undefined\<close>, whose \<open>.row\<close> raises a \<open>TypeError\<close>.
\<close>

definition addRandomTile :: "board \<Rightarrow> rng \<Rightarrow> error + (bool \<times> board \<times> rng)" where
  "addRandomTile b g =
     (let emptyCells = getEmptyCells b
      in if length emptyCells = 0 then Inr (False, b, g)
         else
           (let (r1, g1) = random g;
                idx = \<lfloor>r1 * of_nat (length emptyCells)\<rfloor>;
                (r2, g2) = random g1;
                v = (if r2 < 9 / 10 then Num 2 else Num 4)
            in if 0 \<le> idx \<and> idx < int (length emptyCells)
               then (let (row, col) = emptyCells ! nat idx
                     in Inr (True, setCell b (int row) (int col) v, g2))
               else Inl TypeError))"

section \<open>GameEngine\<close>

text \<open>The snapshot \<open>saveState\<close> keeps; its board is a clone.\<close>

record saved =
  board_s :: ref
  score_s :: int
  isWin_s :: bool
  isGameOver_s :: bool
  moveCount_s :: int

text \<open>
  The engine's fields. \<open>size_e\<close> and \<open>score_e\<close> are the fields \<open>size\<close> and \<open>score\<close>
  (renamed apart from the board's size and the move result's score); \<open>board\<close> is a
  reference into the store.
\<close>

record engine =
  size_e :: nat
  board :: ref
  score_e :: int
  isWin :: bool
  isGameOver :: bool
  moveCount :: int
  previousState :: "saved option"
  errorCount :: int
  maxErrors :: int
  lastError :: "error option"

definition validateSize :: "int \<Rightarrow> error + unit" where
  "validateSize n = (if n < 2 \<or> n > 10 then Inl (InvalidGridSize n) else Inr ())"

text \<open>
  The constructor validates the size and allocates the board; a failed validation is
  re-thrown to the caller.
\<close>

definition new_GameEngine :: "store \<Rightarrow> int \<Rightarrow> error + (engine \<times> store)" where
  "new_GameEngine h n =
     (case validateSize n of
        Inl err \<Rightarrow> Inl err
      | Inr _ \<Rightarrow>
          Inr (\<lparr>size_e = nat n, board = length h, score_e = 0, isWin = False,
                 isGameOver = False, moveCount = 0, previousState = None,
                 errorCount = 0, maxErrors = 10, lastError = None\<rparr>,
               h @ [new_Board (nat n)]))"

text \<open>
  \<open>validateGameState\<close>: the board always exists here, so the check for a missing board
  never raises; a negative score or move count is reset to 0.
\<close>

definition validateGameState :: "engine \<Rightarrow> engine" where
  "validateGameState e =
     (let e1 = (if score_e e < 0 then e\<lparr>score_e := 0\<rparr> else e);
          e2 = (if moveCount e1 < 0 then e1\<lparr>moveCount := 0\<rparr> else e1)
      in e2)"

text \<open>
  \<open>validateInitialization\<close> scans the \<open>size \<times> size\<close> positions with \<open>getCell\<close>,
  counting the cells that are not 0; it raises at the first such cell that is neither 2
  nor 4, and after the scan when the count is not 2.
\<close>

definition validateInitialization :: "engine \<Rightarrow> store \<Rightarrow> error + unit" where
  "validateInitialization e h =
     (case
        fold (\<lambda>row acc.
           fold (\<lambda>col acc.
              (case acc of
                 Inl err \<Rightarrow> Inl err
               | Inr tileCount \<Rightarrow>
                   (let v = getCell (h ! board e) (int row) (int col)
                    in if v \<noteq> Num 0 then
                         (if v \<noteq> Num 2 \<and> v \<noteq> Num 4 then Inl (InvalidInitialTileValue v)
                          else Inr (tileCount + 1))
                       else Inr tileCount)))
             [0..<size_e e] acc)
          [0..<size_e e] (Inr (0::nat))
      of
        Inl err \<Rightarrow> Inl err
      | Inr tileCount \<Rightarrow>
          if tileCount \<noteq> 2 then Inl (InvalidInitialTileCount tileCount) else Inr ())"

text \<open>
  \<open>initializeGame\<close> (and \<open>restart\<close>, which only calls it). The result \<open>Inr\<close> is the state
  after the \<open>try\<close> block ran to its end; \<open>Inl err\<close> says that \<open>err\<close> was raised inside it,
  at which point the source hands over to its error accounting and recovery routines.
\<close>

definition initializeGame :: "engine \<Rightarrow> store \<Rightarrow> rng \<Rightarrow> error + (engine \<times> store \<times> rng)" where
  "initializeGame e h g =
     (let e1 = validateGameState e;
          h1 = h[board e1 := initialize (h ! board e1)];
          e2 = e1\<lparr>score_e := 0, isWin := False, isGameOver := False, moveCount := 0,
                  previousState := None, errorCount := 0, lastError := None\<rparr>
      in case addRandomTile (h1 ! board e2) g of
           Inl err \<Rightarrow> Inl err
         | Inr (_, b2, g2) \<Rightarrow>
             (let h2 = h1[board e2 := b2]
              in case addRandomTile (h2 ! board e2) g2 of
                   Inl err \<Rightarrow> Inl err
                 | Inr (_, b3, g3) \<Rightarrow>
                     (let h3 = h2[board e2 := b3]
                      in case validateInitialization e2 h3 of
                           Inl err \<Rightarrow> Inl err
                         | Inr _ \<Rightarrow> Inr (e2, h3, g3))))"

definition restart :: "engine \<Rightarrow> store \<Rightarrow> rng \<Rightarrow> error + (engine \<times> store \<times> rng)" where
  "restart e h g = initializeGame e h g"

definition validateDirection :: "input \<Rightarrow> bool" where
  "validateDirection direction =
     (case direction of
        Str s \<Rightarrow> s \<in> set [''left'', ''right'', ''up'', ''down'']
      | Other \<Rightarrow> False)"

definition validateMoveResult :: "result \<Rightarrow> error + unit" where
  "validateMoveResult res =
     (if score res < 0 then Inl (InvalidMoveResultScore (score res)) else Inr ())"

definition saveState :: "engine \<Rightarrow> store \<Rightarrow> engine \<times> store" where
  "saveState e h =
     (let (h1, c) = clone_ref h (board e)
      in (e\<lparr>previousState :=
              Some \<lparr>board_s = c, score_s = score_e e, isWin_s = isWin e,
                    isGameOver_s = isGameOver e, moveCount_s = moveCount e\<rparr>\<rparr>,
          h1))"

definition checkWinCondition :: "engine \<Rightarrow> store \<Rightarrow> engine" where
  "checkWinCondition e h =
     (if isWin e then e
      else if list_ex (\<lambda>row.
                list_ex (\<lambda>col. getCell (h ! board e) (int row) (int col) = Num 2048)
                  [0..<size_e e])
              [0..<size_e e]
           then e\<lparr>isWin := True\<rparr>
           else e)"

text \<open>The call \<open>canMove(direction)\<close> of the engine delegates to the move processor.\<close>

definition canMove_e :: "engine \<Rightarrow> store \<Rightarrow> input \<Rightarrow> store \<times> bool" where
  "canMove_e e h direction = canMove h (board e) direction"

text \<open>
  The loop of \<open>checkGameOverCondition\<close> over the four directions: it returns as soon as
  one direction can move.
\<close>

fun anyCanMove :: "store \<Rightarrow> ref \<Rightarrow> input list \<Rightarrow> store \<times> bool" where
  "anyCanMove h r [] = (h, False)"
| "anyCanMove h r (direction # directions) =
     (let (h1, can) = canMove h r direction
      in if can then (h1, True) else anyCanMove h1 r directions)"

definition checkGameOverCondition :: "engine \<Rightarrow> store \<Rightarrow> engine \<times> store" where
  "checkGameOverCondition e h =
     (if isWin e then (e, h)
      else if \<not> isFull (h ! board e) then (e, h)
      else
        (let (h1, can) = anyCanMove h (board e) [Str ''left'', Str ''right'', Str ''up'', Str ''down'']
         in if can then (e, h1) else (e\<lparr>isGameOver := True\<rparr>, h1)))"

text \<open>The \<open>switch\<close> of \<open>move\<close>: the routine for a direction, none in the \<open>default\<close> branch.\<close>

definition moveFor :: "input \<Rightarrow> (board \<Rightarrow> board \<times> result) option" where
  "moveFor direction =
     (if direction = Str ''left'' then Some moveLeft
      else if direction = Str ''right'' then Some moveRight
      else if direction = Str ''up'' then Some moveUp
      else if direction = Str ''down'' then Some moveDown
      else None)"

text \<open>
  \<open>move\<close>. As for \<open>initializeGame\<close>, \<open>Inr (answer, state)\<close> is a run of the \<open>try\<close> block
  that returned \<open>answer\<close>, and \<open>Inl err\<close> a run in which \<open>err\<close> was raised.
\<close>

definition move ::
  "engine \<Rightarrow> store \<Rightarrow> input \<Rightarrow> rng \<Rightarrow> error + (bool \<times> engine \<times> store \<times> rng)" where
  "move e h direction g =
     (if \<not> validateDirection direction then Inr (False, e, h, g)
      else if isGameOver e \<or> isWin e then Inr (False, e, h, g)
      else
        (let e1 = validateGameState e;
             (e2, h2) = saveState e1 h
         in case moveFor direction of
              None \<Rightarrow> Inr (False, e2, h2, g)
            | Some f \<Rightarrow>
                (let (h3, res) = call f h2 (board e2)
                 in if moved res then
                      (case validateMoveResult res of
                         Inl err \<Rightarrow> Inl err
                       | Inr _ \<Rightarrow>
                           (let e3 = e2\<lparr>score_e := score_e e2 + score res,
                                        moveCount := moveCount e2 + 1\<rparr>
                            in case addRandomTile (h3 ! board e3) g of
                                 Inl err \<Rightarrow> Inl err
                               | Inr (_, b4, g4) \<Rightarrow>
                                   (let h4 = h3[board e3 := b4];
                                        e5 = checkWinCondition e3 h4;
                                        (e6, h6) = checkGameOverCondition e5 h4
                                    in Inr (True, e6, h6, g4))))
                    else Inr (False, e2, h3, g))))"

section \<open>Auxiliary functions for stating and proving properties\<close>

text \<open>A board given by its rows of numbers.\<close>

definition numbers :: "int list list \<Rightarrow> board" where
  "numbers xs = \<lparr>size_b = length xs, grid = map (map Num) xs\<rparr>"

text \<open>
  The merge pass as a recursion on the line itself: two equal neighbours at the front
  become one doubled cell, which is not looked at again; otherwise the front cell is kept.
\<close>

fun mergeRec :: "cell list \<Rightarrow> cell list \<times> int" where
  "mergeRec (a # b # rest) =
     (if a = b then (Num (toNumber a * 2) # fst (mergeRec rest), toNumber a * 2 + snd (mergeRec rest))
      else (a # fst (mergeRec (b # rest)), snd (mergeRec (b # rest))))"
| "mergeRec [a] = ([a], 0)"
| "mergeRec [] = ([], 0)"

text \<open>A line written back into a row of \<open>n\<close> cells, padded with 0.\<close>

definition padLine :: "nat \<Rightarrow> cell list \<Rightarrow> cell list" where
  "padLine n mline = map (\<lambda>col. if col < length mline then mline ! col else Num 0) [0..<n]"

text \<open>What \<open>moveLeft\<close> does to one row, and the score that row contributes.\<close>

definition slideRow :: "nat \<Rightarrow> cell list \<Rightarrow> cell list" where
  "slideRow n r = padLine n (fst (mergeLine (filter (\<lambda>v. v \<noteq> Num 0) r)))"

definition rowScore :: "cell list \<Rightarrow> int" where
  "rowScore r = snd (mergeLine (filter (\<lambda>v. v \<noteq> Num 0) r))"

text \<open>
  One exchange of \<open>reverseRows\<close> or of \<open>transpose\<close>: the cells at two positions trade
  places, through \<open>getCell\<close> and \<open>setCell\<close> as in the source.
\<close>

definition swapCells :: "board \<Rightarrow> nat \<Rightarrow> nat \<Rightarrow> nat \<Rightarrow> nat \<Rightarrow> board" where
  "swapCells b r c r' c' =
     (let temp = getCell b (int r) (int c);
          b1 = setCell b (int r) (int c) (getCell b (int r') (int c'));
          b2 = setCell b1 (int r') (int c') temp
      in b2)"

text \<open>The grid with rows and columns exchanged.\<close>

definition transposed :: "nat \<Rightarrow> cell list list \<Rightarrow> cell list list" where
  "transposed n g = map (\<lambda>i. map (\<lambda>j. g ! j ! i) [0..<n]) [0..<n]"

text \<open>The total of a line and of a board, a cell counting with its numeric value.\<close>

definition lineSum :: "cell list \<Rightarrow> int" where
  "lineSum line = sum_list (map toNumber line)"


text \<open>
  The doubled values the merge pass produces, in order: one for each pair of equal
  neighbours it meets.
\<close>

fun mergedValues :: "cell list \<Rightarrow> int list" where
  "mergedValues (a # b # rest) =
     (if a = b then (toNumber a * 2) # mergedValues rest else mergedValues (b # rest))"
| "mergedValues [a] = []"
| "mergedValues [] = []"

text \<open>A row holds two equal non-zero cells next to each other.\<close>

fun adjacentEqual :: "cell list \<Rightarrow> bool" where
  "adjacentEqual (a # b # rest) = ((a = b \<and> a \<noteq> Num 0) \<or> adjacentEqual (b # rest))"
| "adjacentEqual [a] = False"
| "adjacentEqual [] = False"

text \<open>Every cell of the board is a number.\<close>

definition numeric :: "board \<Rightarrow> bool" where
  "numeric b \<longleftrightarrow> list_all (list_all (\<lambda>c. c \<noteq> Null)) (grid b)"

text \<open>
  The state the engine's constructor sets up and its methods keep: the board reference is
  allocated, the board has its shape and the engine's size, score and move count are
  not negative.
\<close>

definition engine_ok :: "engine \<Rightarrow> store \<Rightarrow> bool" where
  "engine_ok e h \<longleftrightarrow>
     board e < length h \<and> wf_board (h ! board e) \<and> size_b (h ! board e) = size_e e \<and>
     0 \<le> score_e e \<and> 0 \<le> moveCount e"

text \<open>The getters \<open>isWinState\<close> and \<open>isGameOverState\<close>.\<close>

definition isWinState :: "engine \<Rightarrow> bool" where
  "isWinState e = isWin e"

definition isGameOverState :: "engine \<Rightarrow> bool" where
  "isGameOverState e = isGameOver e"

text \<open>The win condition: some cell of the grid holds 2048.\<close>

definition hasWinningTile :: "board \<Rightarrow> bool" where
  "hasWinningTile b \<longleftrightarrow> list_ex (list_ex (\<lambda>c. c = Num 2048)) (grid b)"

text \<open>The answer of \<open>canMove\<close> as a function of the state of the board it probes.\<close>

definition canMoveFlag :: "board \<Rightarrow> input \<Rightarrow> bool" where
  "canMoveFlag b d = (case moveFor d of None \<Rightarrow> False | Some f \<Rightarrow> moved (snd (f (clone b))))"

definition directions :: "input list" where
  "directions = [Str ''left'', Str ''right'', Str ''up'', Str ''down'']"

text \<open>The non-zero cells of a board, in row-major order.\<close>

definition tiles :: "board \<Rightarrow> cell list" where
  "tiles b = filter (\<lambda>c. c \<noteq> Num 0) (concat (grid b))"

text \<open>A caller issuing one \<open>move\<close> call after the other, and the answers it gets.\<close>

fun moves :: "engine \<Rightarrow> store \<Rightarrow> rng \<Rightarrow> input list \<Rightarrow> error + (bool list \<times> engine \<times> store \<times> rng)" where
  "moves e h g [] = Inr ([], e, h, g)"
| "moves e h g (direction # rest) =
     (case move e h direction g of
        Inl err \<Rightarrow> Inl err
      | Inr (answer, e1, h1, g1) \<Rightarrow>
          (case moves e1 h1 g1 rest of
             Inl err \<Rightarrow> Inl err
           | Inr (answers, e2, h2, g2) \<Rightarrow> Inr (answer # answers, e2, h2, g2)))"

text \<open>A random source that keeps the contract of \<open>Math.random\<close>: every draw is in \<open>[0, 1)\<close>.\<close>

definition rng_ok :: "rng \<Rightarrow> bool" where
  "rng_ok g \<longleftrightarrow> (\<forall>i. 0 \<le> g i \<and> g i < 1)"

text \<open>A cell that holds a natural number; a board of such cells.\<close>

definition natCell :: "cell \<Rightarrow> bool" where
  "natCell c \<longleftrightarrow> c \<noteq> Null \<and> 0 \<le> toNumber c"

definition natural :: "board \<Rightarrow> bool" where
  "natural b \<longleftrightarrow> list_all (list_all natCell) (grid b)"

text \<open>Every cell of a grid satisfies a predicate.\<close>

definition allCells :: "(cell \<Rightarrow> bool) \<Rightarrow> cell list list \<Rightarrow> bool" where
  "allCells P g \<longleftrightarrow> (\<forall>r\<in>set g. \<forall>c\<in>set r. P c)"

text \<open>
  A game in progress: the engine's invariant, a size the constructor accepts, and natural
  numbers in the cells.
\<close>

definition game_ok :: "engine \<Rightarrow> store \<Rightarrow> bool" where
  "game_ok e h \<longleftrightarrow> engine_ok e h \<and> 2 \<le> size_e e \<and> natural (h ! board e)"

section \<open>Board: basic facts\<close>

lemma size_setCell [simp]: "size_b (setCell b r c v) = size_b b"
  by (simp add: setCell_def)

lemma wf_setCell: "wf_board b \<Longrightarrow> wf_board (setCell b r c v)"
  by (auto simp: wf_board_def setCell_def list_all_iff dest!: set_update_subset_insert[THEN subsetD])

lemma getCell_nat:
  "i < size_b b \<Longrightarrow> j < size_b b \<Longrightarrow> getCell b (int i) (int j) = grid b ! i ! j"
  by (simp add: getCell_def)

lemma setCell_nat:
  "i < size_b b \<Longrightarrow> j < size_b b \<Longrightarrow>
   setCell b (int i) (int j) v = b\<lparr>grid := (grid b)[i := (grid b ! i)[j := v]]\<rparr>"
  by (simp add: setCell_def)

lemma wf_row_length: "wf_board b \<Longrightarrow> i < size_b b \<Longrightarrow> length (grid b ! i) = size_b b"
  by (simp add: wf_board_def list_all_length)

lemma wf_grid_length: "wf_board b \<Longrightarrow> length (grid b) = size_b b"
  by (simp add: wf_board_def)

lemma wf_new_Board: "wf_board (new_Board n)"
  by (simp add: new_Board_def initialize_def wf_board_def list_all_iff)

lemma fillRow_prefix:
  assumes "wf_board b" "row < size_b b" "k \<le> size_b b"
  shows "fold (\<lambda>col (b, mv).
        (let newValue = (if col < length mline then mline ! col else Num 0)
         in if getCell b (int row) (int col) \<noteq> newValue
            then (setCell b (int row) (int col) newValue, True)
            else (b, mv)))
       [0..<k] (b, mv) =
      (b\<lparr>grid := (grid b)[row := take k (padLine (size_b b) mline) @ drop k (grid b ! row)]\<rparr>,
       mv \<or> take k (padLine (size_b b) mline) \<noteq> take k (grid b ! row))"
  using assms(3)
proof (induction k)
  case 0
  then show ?case by simp
next
  case (Suc k)
  let ?n = "size_b b"
  let ?p = "padLine ?n mline"
  let ?o = "grid b ! row"
  have k: "k < ?n" using Suc.prems by simp
  have lo: "length ?o = ?n" using assms wf_row_length by blast
  have lp: "length ?p = ?n" by (simp add: padLine_def)
  have lg: "length (grid b) = ?n" using assms wf_grid_length by blast
  have pk: "?p ! k = (if k < length mline then mline ! k else Num 0)"
    using k by (simp add: padLine_def)
  have upd: "(take k ?p @ drop k ?o)[k := ?p ! k] = take (Suc k) ?p @ drop (Suc k) ?o"
    using k lo lp by (simp add: take_Suc_conv_app_nth list_update_append Cons_nth_drop_Suc[symmetric])
  have same: "?o ! k = ?p ! k \<Longrightarrow> take k ?p @ drop k ?o = take (Suc k) ?p @ drop (Suc k) ?o"
    using k lo lp by (simp add: take_Suc_conv_app_nth Cons_nth_drop_Suc[symmetric])
  have nthk: "(take k ?p @ drop k ?o) ! k = ?o ! k"
    using k lo lp by (simp add: nth_append)
  have flag: "(take (Suc k) ?p \<noteq> take (Suc k) ?o) = (take k ?p \<noteq> take k ?o \<or> ?p ! k \<noteq> ?o ! k)"
    using k lo lp by (simp add: take_Suc_conv_app_nth)
  show ?case
    using Suc.IH k
    apply (simp add: Let_def getCell_nat setCell_nat assms(2) lg nthk flag pk[symmetric] del: upt_Suc add: upt_Suc_append)
    using upd same by auto
qed

lemma fillRow_eq:
  assumes "wf_board b" "row < size_b b"
  shows "fillRow b row mline mv =
      (b\<lparr>grid := (grid b)[row := padLine (size_b b) mline]\<rparr>,
       mv \<or> padLine (size_b b) mline \<noteq> grid b ! row)"
proof -
  have lo: "length (grid b ! row) = size_b b" using assms wf_row_length by blast
  have lp: "length (padLine (size_b b) mline) = size_b b" by (simp add: padLine_def)
  show ?thesis
    unfolding fillRow_def
    using fillRow_prefix[OF assms, of "size_b b" mline mv] lo lp by simp
qed

lemma collectLine_prefix:
  assumes "wf_board b" "row < size_b b" "k \<le> size_b b"
  shows "fold (\<lambda>col line.
        (let v = getCell b (int row) (int col)
         in if v \<noteq> Num 0 then line @ [v] else line))
       [0..<k] [] = filter (\<lambda>v. v \<noteq> Num 0) (take k (grid b ! row))"
  using assms(3)
proof (induction k)
  case 0
  then show ?case by simp
next
  case (Suc k)
  have k: "k < size_b b" using Suc.prems by simp
  have lo: "length (grid b ! row) = size_b b" using assms wf_row_length by blast
  show ?case
    using Suc.IH k lo assms(2)
    by (simp add: Let_def getCell_nat take_Suc_conv_app_nth)
qed

lemma collectLine_eq:
  assumes "wf_board b" "row < size_b b"
  shows "collectLine b row = filter (\<lambda>v. v \<noteq> Num 0) (grid b ! row)"
proof -
  have lo: "length (grid b ! row) = size_b b" using assms wf_row_length by blast
  show ?thesis
    unfolding collectLine_def
    using collectLine_prefix[OF assms, of "size_b b"] lo by simp
qed

lemma length_slideRow [simp]: "length (slideRow n r) = n"
  by (simp add: slideRow_def padLine_def)

lemma map_take_update:
  "k < length g \<Longrightarrow> (map f (take k g) @ drop k g)[k := f (g ! k)] = map f (take (Suc k) g) @ drop (Suc k) g"
  by (simp add: take_Suc_conv_app_nth list_update_append Cons_nth_drop_Suc[symmetric])

lemma moveLeft_prefix:
  assumes "wf_board b" "k \<le> size_b b"
  shows "fold (\<lambda>row (b, mv, sc).
           (let line = collectLine b row;
                merged = mergeLine line;
                sc' = sc + snd merged;
                (b', mv') = fillRow b row (fst merged) mv
            in (b', mv', sc')))
          [0..<k] (b, False, 0) =
      (b\<lparr>grid := map (slideRow (size_b b)) (take k (grid b)) @ drop k (grid b)\<rparr>,
       map (slideRow (size_b b)) (take k (grid b)) \<noteq> take k (grid b),
       sum_list (map rowScore (take k (grid b))))"
  using assms(2)
proof (induction k)
  case 0
  then show ?case by simp
next
  case (Suc k)
  let ?n = "size_b b"
  let ?g = "grid b"
  let ?bk = "b\<lparr>grid := map (slideRow ?n) (take k ?g) @ drop k ?g\<rparr>"
  have k: "k < ?n" using Suc.prems by simp
  have lg: "length ?g = ?n" using assms wf_grid_length by blast
  have rows: "list_all (\<lambda>r. length r = ?n) ?g" using assms by (simp add: wf_board_def)
  have wfk: "wf_board ?bk"
    using lg rows k by (auto simp: wf_board_def list_all_iff dest: in_set_takeD in_set_dropD)
  have szk: "size_b ?bk = ?n" by simp
  have rowk: "grid ?bk ! k = ?g ! k"
    using k lg by (simp add: nth_append)
  have cl: "collectLine ?bk k = filter (\<lambda>v. v \<noteq> Num 0) (?g ! k)"
    using collectLine_eq[OF wfk] k rowk by simp
  have fr: "\<And>ml mv. fillRow ?bk k ml mv =
       (?bk\<lparr>grid := (grid ?bk)[k := padLine ?n ml]\<rparr>, mv \<or> padLine ?n ml \<noteq> ?g ! k)"
    using fillRow_eq[OF wfk] k rowk by simp
  have flag: "(map (slideRow ?n) (take (Suc k) ?g) \<noteq> take (Suc k) ?g) =
        (map (slideRow ?n) (take k ?g) \<noteq> take k ?g \<or> slideRow ?n (?g ! k) \<noteq> ?g ! k)"
    using k lg by (simp add: take_Suc_conv_app_nth)
  have upd: "(map (slideRow ?n) (take k ?g) @ drop k ?g)[k := slideRow ?n (?g ! k)]
      = map (slideRow ?n) (take (Suc k) ?g) @ drop (Suc k) ?g"
    using map_take_update[of k ?g "slideRow ?n"] k lg by simp
  show ?case
    using Suc.IH k lg
    by (simp add: Let_def cl fr flag upd slideRow_def[symmetric] rowScore_def[symmetric]
          take_Suc_conv_app_nth[of k ?g] del: upt_Suc add: upt_Suc_append)
qed

lemma moveLeft_eq:
  assumes "wf_board b"
  shows "moveLeft b =
      (b\<lparr>grid := map (slideRow (size_b b)) (grid b)\<rparr>,
       \<lparr>moved = (map (slideRow (size_b b)) (grid b) \<noteq> grid b),
        score = sum_list (map rowScore (grid b))\<rparr>)"
  unfolding moveLeft_def
  using moveLeft_prefix[OF assms, of "size_b b"] wf_grid_length[OF assms] by simp

section \<open>The merge loop\<close>

lemma mergeRec_Cons_neq:
  "(xs \<noteq> [] \<Longrightarrow> a \<noteq> hd xs) \<Longrightarrow> mergeRec (a # xs) = (a # fst (mergeRec xs), snd (mergeRec xs))"
  by (cases xs) auto

lemma mergeLine_loop_eq:
  "i \<le> length line \<Longrightarrow>
   mergeLine_loop line i merged sc =
     (merged @ fst (mergeRec (drop i line)), sc + snd (mergeRec (drop i line)))"
proof (induction line i merged sc rule: mergeLine_loop.induct)
  case (1 line i merged sc)
  show ?case
  proof (cases "i < length line")
    case False
    then have "mergeLine_loop line i merged sc = (merged, sc)"
      by (subst mergeLine_loop.simps) simp
    then show ?thesis using False by simp
  next
    case True
    note i = True
    show ?thesis
    proof (cases "int i < int (length line) - 1 \<and> line ! i = line ! (i + 1)")
      case True
      then have i2: "i + 2 \<le> length line" and eq: "line ! i = line ! Suc i" 
        and si: "Suc i < length line" by auto
      have d: "drop i line = line ! i # line ! i # drop (Suc (Suc i)) line"
        using si i eq Cons_nth_drop_Suc[of i line] Cons_nth_drop_Suc[of "Suc i" line] by simp
      have step: "mergeLine_loop line i merged sc =
          mergeLine_loop line (i + 2) (merged @ [Num (toNumber (line ! i) * 2)])
               (sc + toNumber (Num (toNumber (line ! i) * 2)))"
        using i True by (subst mergeLine_loop.simps) (simp add: Let_def)
      show ?thesis
        unfolding step "1.IH"(1)[OF i True refl i2]
        by (simp add: d)
    next
      case False
      have i1: "i + 1 \<le> length line" using i by simp
      have d: "drop i line = line ! i # drop (Suc i) line"
        using i by (simp add: Cons_nth_drop_Suc)
      have m: "mergeRec (line ! i # drop (Suc i) line) =
          (line ! i # fst (mergeRec (drop (Suc i) line)), snd (mergeRec (drop (Suc i) line)))"
      proof (rule mergeRec_Cons_neq)
        assume "drop (Suc i) line \<noteq> []"
        then have si: "Suc i < length line" by simp
        then have "hd (drop (Suc i) line) = line ! Suc i" by (simp add: hd_drop_conv_nth)
        moreover have "line ! i \<noteq> line ! Suc i" using False si by auto
        ultimately show "line ! i \<noteq> hd (drop (Suc i) line)" by simp
      qed
      have step: "mergeLine_loop line i merged sc =
          mergeLine_loop line (i + 1) (merged @ [line ! i]) sc"
        using i False by (subst mergeLine_loop.simps) auto
      show ?thesis
        unfolding step "1.IH"(2)[OF i False i1]
        by (simp add: d m)
    qed
  qed
qed

lemma mergeLine_eq: "mergeLine line = mergeRec line"
  by (simp add: mergeLine_def mergeLine_loop_eq)

section \<open>The in-place transformations\<close>

lemma board_eqI:
  assumes "wf_board b" "wf_board b'" "size_b b = size_b b'"
    and "\<And>i j. i < size_b b \<Longrightarrow> j < size_b b \<Longrightarrow> grid b ! i ! j = grid b' ! i ! j"
  shows "b = b'"
proof -
  have "grid b = grid b'"
  proof (rule nth_equalityI)
    show "length (grid b) = length (grid b')"
      using assms by (simp add: wf_grid_length)
  next
    fix i assume "i < length (grid b)"
    then have i: "i < size_b b" using assms by (simp add: wf_grid_length)
    show "grid b ! i = grid b' ! i"
    proof (rule nth_equalityI)
      show "length (grid b ! i) = length (grid b' ! i)"
        using i assms by (simp add: wf_row_length)
    next
      fix j assume "j < length (grid b ! i)"
      then have "j < size_b b" using i assms by (simp add: wf_row_length)
      then show "grid b ! i ! j = grid b' ! i ! j" using i assms(4) by blast
    qed
  qed
  then show ?thesis using assms(3) by simp
qed

lemma nth_setCell:
  assumes "wf_board b" "r < size_b b" "c < size_b b" "i < size_b b" "j < size_b b"
  shows "grid (setCell b (int r) (int c) v) ! i ! j = (if i = r \<and> j = c then v else grid b ! i ! j)"
  using assms
  by (simp add: setCell_nat wf_grid_length wf_row_length nth_list_update)

lemma swapCells_props:
  assumes "wf_board b" "r < size_b b" "c < size_b b" "r' < size_b b" "c' < size_b b"
  shows "wf_board (swapCells b r c r' c')"
    and "size_b (swapCells b r c r' c') = size_b b"
    and "\<And>i j. i < size_b b \<Longrightarrow> j < size_b b \<Longrightarrow>
          grid (swapCells b r c r' c') ! i ! j =
            (if i = r' \<and> j = c' then grid b ! r ! c
             else if i = r \<and> j = c then grid b ! r' ! c'
             else grid b ! i ! j)"
proof -
  show "wf_board (swapCells b r c r' c')"
    using assms by (simp add: swapCells_def Let_def wf_setCell)
  show "size_b (swapCells b r c r' c') = size_b b"
    by (simp add: swapCells_def Let_def)
  fix i j assume "i < size_b b" "j < size_b b"
  then show "grid (swapCells b r c r' c') ! i ! j =
            (if i = r' \<and> j = c' then grid b ! r ! c
             else if i = r \<and> j = c then grid b ! r' ! c'
             else grid b ! i ! j)"
    using assms
    by (simp add: swapCells_def Let_def nth_setCell wf_setCell getCell_nat)
qed

lemma reverse_row_prefix:
  assumes "wf_board b" "row < size_b b" "k \<le> (size_b b + 1) div 2"
  defines "b' \<equiv> fold (\<lambda>col b.
           (let temp = getCell b (int row) (int col);
                b1 = setCell b (int row) (int col)
                       (getCell b (int row) (int (size_b b) - 1 - int col));
                b2 = setCell b1 (int row) (int (size_b b) - 1 - int col) temp
            in b2)) [0..<k] b"
  shows "wf_board b' \<and> size_b b' = size_b b \<and>
     (\<forall>i<size_b b. \<forall>j<size_b b. grid b' ! i ! j =
        (if i = row \<and> (j < k \<or> size_b b - 1 - j < k) then grid b ! row ! (size_b b - 1 - j)
         else grid b ! i ! j))"
  unfolding b'_def using assms(3)
proof (induction k)
  case 0
  then show ?case using assms(1) by simp
next
  case (Suc k)
  let ?n = "size_b b"
  let ?step = "(\<lambda>col b.
           (let temp = getCell b (int row) (int col);
                b1 = setCell b (int row) (int col)
                       (getCell b (int row) (int (size_b b) - 1 - int col));
                b2 = setCell b1 (int row) (int (size_b b) - 1 - int col) temp
            in b2))"
  define bk where "bk = fold ?step [0..<k] b"
  have k: "k < ?n" "k \<le> ?n - 1 - k" using Suc.prems by auto
  have IH: "wf_board bk" "size_b bk = ?n"
    "\<And>i j. i < ?n \<Longrightarrow> j < ?n \<Longrightarrow> grid bk ! i ! j =
        (if i = row \<and> (j < k \<or> ?n - 1 - j < k) then grid b ! row ! (?n - 1 - j)
         else grid b ! i ! j)"
    using Suc.IH Suc.prems unfolding bk_def by auto
  have idx: "int ?n - 1 - int k = int (?n - 1 - k)" using k by auto
  define r where "r = swapCells bk row k row (?n - 1 - k)"
  have step: "?step k bk = r"
    unfolding r_def swapCells_def IH(2) idx ..
  have f: "fold ?step [0..<Suc k] b = r"
    unfolding step[symmetric] bk_def by simp
  have m: "?n - 1 - k < ?n" using k by auto
  note sp = swapCells_props[OF IH(1), of row k row "?n - 1 - k", unfolded IH(2), OF assms(2) k(1) assms(2) m,
      folded r_def]
  have C: "\<forall>i<?n. \<forall>j<?n. grid r ! i ! j =
        (if i = row \<and> (j < Suc k \<or> ?n - 1 - j < Suc k) then grid b ! row ! (?n - 1 - j)
         else grid b ! i ! j)"
    using k assms(2) by (auto simp: sp(3) IH(3))
  show ?case
    unfolding f using sp(1,2) C by blast
qed

lemma reverseRows_prefix:
  assumes "wf_board b" "k \<le> size_b b"
  defines "b' \<equiv> fold (\<lambda>row b.
        fold (\<lambda>col b.
           (let temp = getCell b (int row) (int col);
                b1 = setCell b (int row) (int col)
                       (getCell b (int row) (int (size_b b) - 1 - int col));
                b2 = setCell b1 (int row) (int (size_b b) - 1 - int col) temp
            in b2))
          [0..<(size_b b + 1) div 2] b) [0..<k] b"
  shows "wf_board b' \<and> size_b b' = size_b b \<and>
     (\<forall>i<size_b b. \<forall>j<size_b b. grid b' ! i ! j =
        (if i < k then grid b ! i ! (size_b b - 1 - j) else grid b ! i ! j))"
  unfolding b'_def using assms(2)
proof (induction k)
  case 0
  then show ?case using assms(1) by simp
next
  case (Suc k)
  let ?n = "size_b b"
  let ?inner = "(\<lambda>row b.
        fold (\<lambda>col b.
           (let temp = getCell b (int row) (int col);
                b1 = setCell b (int row) (int col)
                       (getCell b (int row) (int (size_b b) - 1 - int col));
                b2 = setCell b1 (int row) (int (size_b b) - 1 - int col) temp
            in b2))
          [0..<(size_b b + 1) div 2] b)"
  let ?bk = "fold ?inner [0..<k] b"
  have k: "k < ?n" using Suc.prems by simp
  have IH: "wf_board ?bk" "size_b ?bk = ?n"
    "\<And>i j. i < ?n \<Longrightarrow> j < ?n \<Longrightarrow> grid ?bk ! i ! j =
        (if i < k then grid b ! i ! (?n - 1 - j) else grid b ! i ! j)"
    using Suc.IH Suc.prems by auto
  have f: "fold ?inner [0..<Suc k] b = ?inner k ?bk" by simp
  have kk: "k < size_b ?bk" using k IH(2) by simp
  let ?row = "(\<lambda>col b.
           (let temp = getCell b (int k) (int col);
                b1 = setCell b (int k) (int col)
                       (getCell b (int k) (int (size_b b) - 1 - int col));
                b2 = setCell b1 (int k) (int (size_b b) - 1 - int col) temp
            in b2))"
  note rp = reverse_row_prefix[OF IH(1) kk order_refl, unfolded IH(2)]
  have in_eq: "?inner k ?bk = fold ?row [0..<(?n + 1) div 2] ?bk"
    by (simp only: IH(2))
  define bk where "bk = ?bk"
  define r where "r = fold ?row [0..<(?n + 1) div 2] ?bk"
  have A: "wf_board r" "size_b r = ?n"
    "\<And>i j. i < ?n \<Longrightarrow> j < ?n \<Longrightarrow> grid r ! i ! j =
       (if i = k \<and> (j < (?n + 1) div 2 \<or> ?n - 1 - j < (?n + 1) div 2)
        then grid bk ! k ! (?n - 1 - j) else grid bk ! i ! j)"
    using rp unfolding r_def bk_def by blast+
  have B: "\<And>i j. i < ?n \<Longrightarrow> j < ?n \<Longrightarrow> grid bk ! i ! j =
        (if i < k then grid b ! i ! (?n - 1 - j) else grid b ! i ! j)"
    using IH(3) unfolding bk_def by blast
  have half: "\<And>j. j < ?n \<Longrightarrow> j < (?n + 1) div 2 \<or> ?n - 1 - j < (?n + 1) div 2"
    by linarith
  have C: "\<forall>i<?n. \<forall>j<?n. grid r ! i ! j =
        (if i < Suc k then grid b ! i ! (?n - 1 - j) else grid b ! i ! j)"
  proof (intro allI impI)
    fix i j assume ij: "i < ?n" "j < ?n"
    have m: "?n - 1 - j < ?n" using ij by simp
    show "grid r ! i ! j =
        (if i < Suc k then grid b ! i ! (?n - 1 - j) else grid b ! i ! j)"
      using half[OF ij(2)] k ij m by (auto simp: A(3) B less_Suc_eq)
  qed
  show ?case
    unfolding f in_eq using A(1,2) C unfolding r_def by blast
qed

lemma reverseRows_eq:
  assumes "wf_board b"
  shows "reverseRows b = b\<lparr>grid := map rev (grid b)\<rparr>"
proof (rule board_eqI)
  note rp = reverseRows_prefix[OF assms order_refl, folded reverseRows_def]
  show "wf_board (reverseRows b)" using rp by blast
  show wf': "wf_board (b\<lparr>grid := map rev (grid b)\<rparr>)"
    using assms by (simp add: wf_board_def list_all_iff)
  show "size_b (reverseRows b) = size_b (b\<lparr>grid := map rev (grid b)\<rparr>)" using rp by simp
  fix i j assume "i < size_b (reverseRows b)" "j < size_b (reverseRows b)"
  then have ij: "i < size_b b" "j < size_b b" using rp by simp_all
  then have "grid (reverseRows b) ! i ! j = grid b ! i ! (size_b b - 1 - j)" using rp by simp
  also have "\<dots> = rev (grid b ! i) ! j"
    using ij assms by (simp add: rev_nth wf_row_length)
  finally show "grid (reverseRows b) ! i ! j = grid (b\<lparr>grid := map rev (grid b)\<rparr>) ! i ! j"
    using ij assms by (simp add: wf_grid_length)
qed

lemma transpose_row_prefix:
  assumes "wf_board b" "row < size_b b" "Suc row + d \<le> size_b b"
  defines "b' \<equiv> fold (\<lambda>col b.
           (let temp = getCell b (int row) (int col);
                b1 = setCell b (int row) (int col) (getCell b (int col) (int row));
                b2 = setCell b1 (int col) (int row) temp
            in b2)) [Suc row..<Suc row + d] b"
  shows "wf_board b' \<and> size_b b' = size_b b \<and>
     (\<forall>i<size_b b. \<forall>j<size_b b. grid b' ! i ! j =
        (if (i = row \<and> row < j \<and> j < Suc row + d) \<or> (j = row \<and> row < i \<and> i < Suc row + d)
         then grid b ! j ! i else grid b ! i ! j))"
  unfolding b'_def using assms(3)
proof (induction d)
  case 0
  then show ?case using assms(1) by auto
next
  case (Suc d)
  let ?n = "size_b b"
  let ?step = "(\<lambda>col b.
           (let temp = getCell b (int row) (int col);
                b1 = setCell b (int row) (int col) (getCell b (int col) (int row));
                b2 = setCell b1 (int col) (int row) temp
            in b2))"
  define c where "c = Suc row + d"
  define bk where "bk = fold ?step [Suc row..<c] b"
  have c: "c < ?n" "row < c" using Suc.prems unfolding c_def by simp_all
  have IH: "wf_board bk" "size_b bk = ?n"
    "\<And>i j. i < ?n \<Longrightarrow> j < ?n \<Longrightarrow> grid bk ! i ! j =
        (if (i = row \<and> row < j \<and> j < c) \<or> (j = row \<and> row < i \<and> i < c)
         then grid b ! j ! i else grid b ! i ! j)"
    using Suc.IH Suc.prems unfolding bk_def c_def by auto
  define r where "r = swapCells bk row c c row"
  have step: "?step c bk = r"
    unfolding r_def swapCells_def ..
  have l: "[Suc row..<Suc c] = [Suc row..<c] @ [c]"
    using c(2) by simp
  have f: "fold ?step [Suc row..<Suc c] b = r"
    unfolding step[symmetric] bk_def l by simp
  note sp = swapCells_props[OF IH(1), of row c c row, unfolded IH(2), OF assms(2) c(1) c(1) assms(2),
      folded r_def]
  have e: "Suc row + Suc d = Suc c" unfolding c_def by simp
  have C: "\<forall>i<?n. \<forall>j<?n. grid r ! i ! j =
        (if (i = row \<and> row < j \<and> j < Suc c) \<or> (j = row \<and> row < i \<and> i < Suc c)
         then grid b ! j ! i else grid b ! i ! j)"
    using c assms(2) by (auto simp: sp(3) IH(3) less_Suc_eq)
  show ?case
    unfolding e f using sp(1,2) C by blast
qed

lemma transpose_prefix:
  assumes "wf_board b" "k \<le> size_b b"
  defines "b' \<equiv> fold (\<lambda>row b.
        fold (\<lambda>col b.
           (let temp = getCell b (int row) (int col);
                b1 = setCell b (int row) (int col) (getCell b (int col) (int row));
                b2 = setCell b1 (int col) (int row) temp
            in b2))
          [row + 1..<size_b b] b) [0..<k] b"
  shows "wf_board b' \<and> size_b b' = size_b b \<and>
     (\<forall>i<size_b b. \<forall>j<size_b b. grid b' ! i ! j =
        (if i < k \<or> j < k then grid b ! j ! i else grid b ! i ! j))"
  unfolding b'_def using assms(2)
proof (induction k)
  case 0
  then show ?case using assms(1) by simp
next
  case (Suc k)
  let ?n = "size_b b"
  let ?inner = "(\<lambda>row b.
        fold (\<lambda>col b.
           (let temp = getCell b (int row) (int col);
                b1 = setCell b (int row) (int col) (getCell b (int col) (int row));
                b2 = setCell b1 (int col) (int row) temp
            in b2))
          [row + 1..<size_b b] b)"
  let ?bk = "fold ?inner [0..<k] b"
  have k: "k < ?n" using Suc.prems by simp
  have IH: "wf_board ?bk" "size_b ?bk = ?n"
    "\<And>i j. i < ?n \<Longrightarrow> j < ?n \<Longrightarrow> grid ?bk ! i ! j =
        (if i < k \<or> j < k then grid b ! j ! i else grid b ! i ! j)"
    using Suc.IH Suc.prems by auto
  have f: "fold ?inner [0..<Suc k] b = ?inner k ?bk" by simp
  have kk: "k < size_b ?bk" using k IH(2) by simp
  have d: "Suc k + (?n - Suc k) \<le> size_b ?bk" using k IH(2) by simp
  have e: "Suc k + (?n - Suc k) = ?n" using k by simp
  let ?row = "(\<lambda>col b.
           (let temp = getCell b (int k) (int col);
                b1 = setCell b (int k) (int col) (getCell b (int col) (int k));
                b2 = setCell b1 (int col) (int k) temp
            in b2))"
  note rp = transpose_row_prefix[OF IH(1) kk d, unfolded IH(2) e]
  have in_eq: "?inner k ?bk = fold ?row [Suc k..<?n] ?bk"
    by (simp only: IH(2) Suc_eq_plus1)
  define bk where "bk = ?bk"
  define r where "r = fold ?row [Suc k..<?n] ?bk"
  have A: "wf_board r" "size_b r = ?n"
    "\<And>i j. i < ?n \<Longrightarrow> j < ?n \<Longrightarrow> grid r ! i ! j =
       (if (i = k \<and> k < j \<and> j < ?n) \<or> (j = k \<and> k < i \<and> i < ?n)
        then grid bk ! j ! i else grid bk ! i ! j)"
    using rp unfolding r_def bk_def by blast+
  have B: "\<And>i j. i < ?n \<Longrightarrow> j < ?n \<Longrightarrow> grid bk ! i ! j =
        (if i < k \<or> j < k then grid b ! j ! i else grid b ! i ! j)"
    using IH(3) unfolding bk_def by blast
  have C: "\<forall>i<?n. \<forall>j<?n. grid r ! i ! j =
        (if i < Suc k \<or> j < Suc k then grid b ! j ! i else grid b ! i ! j)"
    using k by (auto simp: A(3) B less_Suc_eq)
  show ?case
    unfolding f in_eq using A(1,2) C unfolding r_def by blast
qed

lemma transpose_b_eq:
  assumes "wf_board b"
  shows "transpose_b b = b\<lparr>grid := transposed (size_b b) (grid b)\<rparr>"
proof (rule board_eqI)
  note rp = transpose_prefix[OF assms order_refl, folded transpose_b_def]
  show "wf_board (transpose_b b)" using rp by blast
  show "wf_board (b\<lparr>grid := transposed (size_b b) (grid b)\<rparr>)"
    by (simp add: wf_board_def list_all_iff transposed_def)
  show "size_b (transpose_b b) = size_b (b\<lparr>grid := transposed (size_b b) (grid b)\<rparr>)"
    using rp by simp
  fix i j assume "i < size_b (transpose_b b)" "j < size_b (transpose_b b)"
  then have ij: "i < size_b b" "j < size_b b" using rp by simp_all
  then show "grid (transpose_b b) ! i ! j = grid (b\<lparr>grid := transposed (size_b b) (grid b)\<rparr>) ! i ! j"
    using rp by (simp add: transposed_def)
qed

section \<open>The four moves as functions of the grid\<close>

lemma wf_boardI:
  "length g = n \<Longrightarrow> (\<And>r. r \<in> set g \<Longrightarrow> length r = n) \<Longrightarrow> wf_board \<lparr>size_b = n, grid = g\<rparr>"
  by (simp add: wf_board_def list_all_iff)

lemma wf_grid_update:
  "length g = size_b b \<Longrightarrow> (\<And>r. r \<in> set g \<Longrightarrow> length r = size_b b) \<Longrightarrow> wf_board (b\<lparr>grid := g\<rparr>)"
  by (simp add: wf_board_def list_all_iff)

lemma wf_rows: "wf_board b \<Longrightarrow> r \<in> set (grid b) \<Longrightarrow> length r = size_b b"
  by (simp add: wf_board_def list_all_iff)

lemma wf_map_slide: "wf_board b \<Longrightarrow> wf_board (b\<lparr>grid := map (slideRow (size_b b)) (grid b)\<rparr>)"
  by (rule wf_grid_update) (auto simp: wf_grid_length)

lemma wf_map_rev: "wf_board b \<Longrightarrow> wf_board (b\<lparr>grid := map rev (grid b)\<rparr>)"
  by (rule wf_grid_update) (auto simp: wf_grid_length wf_rows)

lemma wf_transposed: "wf_board (b\<lparr>grid := transposed (size_b b) (grid b)\<rparr>)"
  by (rule wf_grid_update) (auto simp: transposed_def)

lemma transposed_involution:
  assumes "length g = n" "\<And>r. r \<in> set g \<Longrightarrow> length r = n"
  shows "transposed n (transposed n g) = g"
proof (rule nth_equalityI)
  show "length (transposed n (transposed n g)) = length g"
    using assms by (simp add: transposed_def)
next
  fix i assume "i < length (transposed n (transposed n g))"
  then have i: "i < n" by (simp add: transposed_def)
  then have li: "length (g ! i) = n" using assms by simp
  show "transposed n (transposed n g) ! i = g ! i"
  proof (rule nth_equalityI)
    show "length (transposed n (transposed n g) ! i) = length (g ! i)"
      using i li by (simp add: transposed_def)
  next
    fix j assume "j < length (transposed n (transposed n g) ! i)"
    then have "j < n" using i by (simp add: transposed_def)
    then show "transposed n (transposed n g) ! i ! j = g ! i ! j"
      using i by (simp add: transposed_def)
  qed
qed

lemma moveRight_eq:
  assumes "wf_board b"
  shows "moveRight b =
      (b\<lparr>grid := map rev (map (slideRow (size_b b)) (map rev (grid b)))\<rparr>,
       \<lparr>moved = (map (slideRow (size_b b)) (map rev (grid b)) \<noteq> map rev (grid b)),
        score = sum_list (map rowScore (map rev (grid b)))\<rparr>)"
proof -
  let ?b1 = "b\<lparr>grid := map rev (grid b)\<rparr>"
  have w1: "wf_board ?b1" using assms by (rule wf_map_rev)
  have w2: "wf_board (?b1\<lparr>grid := map (slideRow (size_b ?b1)) (grid ?b1)\<rparr>)"
    using w1 by (rule wf_map_slide)
  have "moveRight b = (reverseRows (fst (moveLeft (reverseRows b))), snd (moveLeft (reverseRows b)))"
    by (simp add: moveRight_def Let_def split: prod.split)
  also have "\<dots> = (reverseRows (?b1\<lparr>grid := map (slideRow (size_b ?b1)) (grid ?b1)\<rparr>),
       \<lparr>moved = (map (slideRow (size_b ?b1)) (grid ?b1) \<noteq> grid ?b1),
        score = sum_list (map rowScore (grid ?b1))\<rparr>)"
    unfolding reverseRows_eq[OF assms] moveLeft_eq[OF w1] by simp
  finally show ?thesis
    unfolding reverseRows_eq[OF w2] by simp
qed

lemma moveUp_eq:
  assumes "wf_board b"
  shows "moveUp b =
      (b\<lparr>grid := transposed (size_b b) (map (slideRow (size_b b)) (transposed (size_b b) (grid b)))\<rparr>,
       \<lparr>moved = (map (slideRow (size_b b)) (transposed (size_b b) (grid b)) \<noteq> transposed (size_b b) (grid b)),
        score = sum_list (map rowScore (transposed (size_b b) (grid b)))\<rparr>)"
proof -
  let ?b1 = "b\<lparr>grid := transposed (size_b b) (grid b)\<rparr>"
  have w1: "wf_board ?b1" by (rule wf_transposed)
  have w2: "wf_board (?b1\<lparr>grid := map (slideRow (size_b ?b1)) (grid ?b1)\<rparr>)"
    using w1 by (rule wf_map_slide)
  have "moveUp b = (transpose_b (fst (moveLeft (transpose_b b))), snd (moveLeft (transpose_b b)))"
    by (simp add: moveUp_def Let_def split: prod.split)
  also have "\<dots> = (transpose_b (?b1\<lparr>grid := map (slideRow (size_b ?b1)) (grid ?b1)\<rparr>),
       \<lparr>moved = (map (slideRow (size_b ?b1)) (grid ?b1) \<noteq> grid ?b1),
        score = sum_list (map rowScore (grid ?b1))\<rparr>)"
    unfolding transpose_b_eq[OF assms] moveLeft_eq[OF w1] by simp
  finally show ?thesis
    unfolding transpose_b_eq[OF w2] by simp
qed

lemma moveDown_eq:
  assumes "wf_board b"
  shows "moveDown b =
      (b\<lparr>grid := transposed (size_b b)
          (map rev (map (slideRow (size_b b)) (map rev (transposed (size_b b) (grid b)))))\<rparr>,
       \<lparr>moved = (map (slideRow (size_b b)) (map rev (transposed (size_b b) (grid b)))
                  \<noteq> map rev (transposed (size_b b) (grid b))),
        score = sum_list (map rowScore (map rev (transposed (size_b b) (grid b))))\<rparr>)"
proof -
  let ?b1 = "b\<lparr>grid := transposed (size_b b) (grid b)\<rparr>"
  have w1: "wf_board ?b1" by (rule wf_transposed)
  have w2: "wf_board (?b1\<lparr>grid := map rev (map (slideRow (size_b ?b1)) (map rev (grid ?b1)))\<rparr>)"
    by (rule wf_grid_update) (auto simp: transposed_def)
  have "moveDown b = (transpose_b (fst (moveRight (transpose_b b))), snd (moveRight (transpose_b b)))"
    by (simp add: moveDown_def Let_def split: prod.split)
  also have "\<dots> = (transpose_b (?b1\<lparr>grid := map rev (map (slideRow (size_b ?b1)) (map rev (grid ?b1)))\<rparr>),
       \<lparr>moved = (map (slideRow (size_b ?b1)) (map rev (grid ?b1)) \<noteq> map rev (grid ?b1)),
        score = sum_list (map rowScore (map rev (grid ?b1)))\<rparr>)"
    unfolding transpose_b_eq[OF assms] moveRight_eq[OF w1] by simp
  finally show ?thesis
    unfolding transpose_b_eq[OF w2] by simp
qed

lemma length_transposed [simp]: "length (transposed n g) = n"
  by (simp add: transposed_def)

lemma length_transposed_row: "r \<in> set (transposed n g) \<Longrightarrow> length r = n"
  by (auto simp: transposed_def)

text \<open>moved is raised exactly when the grid has changed.\<close>

lemma moveLeft_moved_iff:
  "wf_board b \<Longrightarrow> moved (snd (moveLeft b)) \<longleftrightarrow> grid (fst (moveLeft b)) \<noteq> grid b"
  by (simp add: moveLeft_eq)

lemma map_rev_eq_iff: "map rev xs = ys \<longleftrightarrow> xs = map rev ys"
  by (auto simp: rev_map[symmetric] map_idI comp_def)

lemma grid_upd: "grid (b\<lparr>grid := g\<rparr>) = g"
  by simp

lemma moveRight_moved_iff:
  assumes "wf_board b"
  shows "moved (snd (moveRight b)) \<longleftrightarrow> grid (fst (moveRight b)) \<noteq> grid b"
proof -
  let ?n = "size_b b"
  have "map rev (map (slideRow ?n) (map rev (grid b))) = grid b
     \<longleftrightarrow> map (slideRow ?n) (map rev (grid b)) = map rev (grid b)"
    by (rule map_rev_eq_iff)
  then show ?thesis
    unfolding moveRight_eq[OF assms] by (simp only: fst_conv snd_conv grid_upd result.simps)
qed

lemma transposed_eq_iff:
  assumes "length xs = n" "\<And>r. r \<in> set xs \<Longrightarrow> length r = n"
    and "length ys = n" "\<And>r. r \<in> set ys \<Longrightarrow> length r = n"
  shows "transposed n xs = ys \<longleftrightarrow> xs = transposed n ys"
  using transposed_involution[OF assms(1,2)] transposed_involution[OF assms(3,4)] by auto

lemma moveUp_moved_iff:
  assumes "wf_board b"
  shows "moved (snd (moveUp b)) \<longleftrightarrow> grid (fst (moveUp b)) \<noteq> grid b"
proof -
  let ?n = "size_b b"
  have "transposed ?n (map (slideRow ?n) (transposed ?n (grid b))) = grid b
     \<longleftrightarrow> map (slideRow ?n) (transposed ?n (grid b)) = transposed ?n (grid b)"
    by (rule transposed_eq_iff) (auto simp: wf_grid_length[OF assms] wf_rows[OF assms])
  then show ?thesis
    unfolding moveUp_eq[OF assms] by (simp only: fst_conv snd_conv grid_upd result.simps)
qed

lemma moveDown_moved_iff:
  assumes "wf_board b"
  shows "moved (snd (moveDown b)) \<longleftrightarrow> grid (fst (moveDown b)) \<noteq> grid b"
proof -
  let ?n = "size_b b"
  let ?t = "transposed ?n (grid b)"
  have "transposed ?n (map rev (map (slideRow ?n) (map rev ?t))) = grid b
     \<longleftrightarrow> map rev (map (slideRow ?n) (map rev ?t)) = ?t"
    by (rule transposed_eq_iff) (auto simp: wf_grid_length[OF assms] wf_rows[OF assms])
  also have "\<dots> \<longleftrightarrow> map (slideRow ?n) (map rev ?t) = map rev ?t"
    by (rule map_rev_eq_iff)
  finally show ?thesis
    unfolding moveDown_eq[OF assms] by (simp only: fst_conv snd_conv grid_upd result.simps)
qed

text \<open>Every move keeps the shape of the board.\<close>

lemma wf_moves:
  assumes "wf_board b"
  shows "wf_board (fst (moveLeft b))" "wf_board (fst (moveRight b))"
    "wf_board (fst (moveUp b))" "wf_board (fst (moveDown b))"
    "size_b (fst (moveLeft b)) = size_b b" "size_b (fst (moveRight b)) = size_b b"
    "size_b (fst (moveUp b)) = size_b b" "size_b (fst (moveDown b)) = size_b b"
  unfolding moveLeft_eq[OF assms] moveRight_eq[OF assms] moveUp_eq[OF assms] moveDown_eq[OF assms]
  using assms
  by (auto intro!: wf_grid_update simp: wf_grid_length length_transposed_row)

section \<open>Totals\<close>

lemma lineSum_simps [simp]:
  "lineSum [] = 0" "lineSum (c # cs) = toNumber c + lineSum cs"
  "lineSum (xs @ ys) = lineSum xs + lineSum ys"
  by (simp_all add: lineSum_def)


lemma mergeRec_score: "snd (mergeRec line) = sum_list (mergedValues line)"
  by (induction line rule: mergeRec.induct) auto

lemma mergeRec_length: "length (fst (mergeRec line)) \<le> length line"
  by (induction line rule: mergeRec.induct) auto


lemma padLine_short: "length m \<le> n \<Longrightarrow> padLine n m = m @ replicate (n - length m) (Num 0)"
  by (rule nth_equalityI) (auto simp: padLine_def nth_append)

lemma lineSum_replicate_zero [simp]: "lineSum (replicate k (Num 0)) = 0"
  by (induction k) auto


lemma lineSum_rev [simp]: "lineSum (rev r) = lineSum r"
  by (simp add: lineSum_def rev_map[symmetric])







section \<open>A second move to the left\<close>

lemma mergeRec_tiles:
  "\<forall>c\<in>set line. c \<noteq> Num 0 \<and> c \<noteq> Null \<Longrightarrow> \<forall>c\<in>set (fst (mergeRec line)). c \<noteq> Num 0 \<and> c \<noteq> Null"
proof (induction line rule: mergeRec.induct)
  case (1 a b rest)
  show ?case
  proof (cases "a = b")
    case True
    have a: "a \<noteq> Num 0" "a \<noteq> Null" using "1.prems" by simp_all
    then have d: "Num (toNumber a * 2) \<noteq> Num 0" by (cases a) simp_all
    have "\<forall>c\<in>set rest. c \<noteq> Num 0 \<and> c \<noteq> Null" using "1.prems" by simp
    then have "\<forall>c\<in>set (fst (mergeRec rest)). c \<noteq> Num 0 \<and> c \<noteq> Null"
      using "1.IH"(1)[OF True] by blast
    then show ?thesis using True d by simp
  next
    case False
    have a: "a \<noteq> Num 0" "a \<noteq> Null" using "1.prems" by simp_all
    have "\<forall>c\<in>set (b # rest). c \<noteq> Num 0 \<and> c \<noteq> Null" using "1.prems" by simp
    then have "\<forall>c\<in>set (fst (mergeRec (b # rest))). c \<noteq> Num 0 \<and> c \<noteq> Null"
      using "1.IH"(3)[OF False] by blast
    then show ?thesis using False a by simp
  qed
qed simp_all

lemma adjacentEqual_zeros [simp]: "\<not> adjacentEqual (replicate k (Num 0))"
proof (induction k)
  case (Suc k)
  then show ?case by (cases k) auto
qed simp

lemma adjacentEqual_zeros' [simp]: "\<not> adjacentEqual (Num 0 # replicate k (Num 0))"
  using adjacentEqual_zeros[of "Suc k"] by simp

lemma adjacentEqual_pad:
  "\<forall>c\<in>set m. c \<noteq> Num 0 \<Longrightarrow> adjacentEqual (m @ replicate k (Num 0)) \<longleftrightarrow> adjacentEqual m"
proof (induction m rule: adjacentEqual.induct)
  case (2 a)
  then show ?case by (cases k) auto
qed auto

lemma mergeRec_no_pair:
  "\<forall>c\<in>set m. c \<noteq> Num 0 \<Longrightarrow> \<not> adjacentEqual m \<Longrightarrow> fst (mergeRec m) = m"
  by (induction m rule: mergeRec.induct) auto

lemma mergeRec_pair_shorter:
  "\<forall>c\<in>set m. c \<noteq> Num 0 \<Longrightarrow> adjacentEqual m \<Longrightarrow> length (fst (mergeRec m)) < length m"
proof (induction m rule: mergeRec.induct)
  case (1 a b rest)
  then show ?case
    using mergeRec_length[of rest] by (auto simp: less_Suc_eq_le)
qed auto

lemma filter_pad: "\<forall>c\<in>set m. c \<noteq> Num 0 \<Longrightarrow> filter (\<lambda>v. v \<noteq> Num 0) (m @ replicate k (Num 0)) = m"
  by (induction m) auto

lemma slideRow_again:
  assumes "\<forall>c\<in>set m. c \<noteq> Num 0" "length m \<le> n"
  shows "slideRow n (padLine n m) \<noteq> padLine n m \<longleftrightarrow> adjacentEqual (padLine n m)"
proof -
  let ?k = "n - length m"
  have p: "padLine n m = m @ replicate ?k (Num 0)" using assms(2) by (rule padLine_short)
  have s: "slideRow n (padLine n m) = padLine n (fst (mergeRec m))"
    unfolding slideRow_def p filter_pad[OF assms(1)] mergeLine_eq ..
  have a: "adjacentEqual (padLine n m) \<longleftrightarrow> adjacentEqual m"
    unfolding p using assms(1) by (rule adjacentEqual_pad)
  show ?thesis
  proof (cases "adjacentEqual m")
    case False
    then show ?thesis using a s mergeRec_no_pair[OF assms(1)] by simp
  next
    case True
    let ?m' = "fst (mergeRec m)"
    have l: "length ?m' < length m" using assms(1) True by (rule mergeRec_pair_shorter)
    define i where "i = length m - 1"
    have i: "i < length m" "length ?m' \<le> i" "i < n" using l assms(2) by (auto simp: i_def)
    have "padLine n ?m' ! i = Num 0" using i by (simp add: padLine_def)
    moreover have "padLine n m ! i = m ! i" using i by (simp add: padLine_def)
    moreover have "m ! i \<noteq> Num 0" using assms(1) i(1) by simp
    ultimately have "padLine n ?m' \<noteq> padLine n m" by auto
    then show ?thesis using a s True by simp
  qed
qed

lemma slideRow_twice:
  assumes "\<forall>c\<in>set r. c \<noteq> Null" "length r \<le> n"
  shows "slideRow n (slideRow n r) \<noteq> slideRow n r \<longleftrightarrow> adjacentEqual (slideRow n r)"
proof -
  let ?m = "fst (mergeRec (filter (\<lambda>v. v \<noteq> Num 0) r))"
  have "\<forall>c\<in>set (filter (\<lambda>v. v \<noteq> Num 0) r). c \<noteq> Num 0 \<and> c \<noteq> Null" using assms(1) by auto
  then have t: "\<forall>c\<in>set ?m. c \<noteq> Num 0" using mergeRec_tiles by blast
  have "length ?m \<le> length (filter (\<lambda>v. v \<noteq> Num 0) r)" by (rule mergeRec_length)
  also have "\<dots> \<le> n" using assms(2) length_filter_le[of _ r] by (meson order_trans)
  finally have l: "length ?m \<le> n" .
  show ?thesis
    using slideRow_again[OF t l] by (simp add: slideRow_def mergeLine_eq)
qed

section \<open>Cloning\<close>

lemma clone_row_prefix:
  assumes "wf_board nb" "size_b nb = size_b b" "row < size_b b" "k \<le> size_b b"
  defines "nb' \<equiv> fold (\<lambda>col newBoard.
            setCell newBoard (int row) (int col) (getCell b (int row) (int col))) [0..<k] nb"
  shows "wf_board nb' \<and> size_b nb' = size_b b \<and>
     (\<forall>i<size_b b. \<forall>j<size_b b. grid nb' ! i ! j =
        (if i = row \<and> j < k then grid b ! row ! j else grid nb ! i ! j))"
  unfolding nb'_def using assms(4)
proof (induction k)
  case 0
  then show ?case using assms(1,2) by simp
next
  case (Suc k)
  let ?n = "size_b b"
  let ?step = "(\<lambda>col newBoard.
            setCell newBoard (int row) (int col) (getCell b (int row) (int col)))"
  define bk where "bk = fold ?step [0..<k] nb"
  have k: "k < ?n" using Suc.prems by simp
  have IH: "wf_board bk" "size_b bk = ?n"
    "\<And>i j. i < ?n \<Longrightarrow> j < ?n \<Longrightarrow> grid bk ! i ! j =
        (if i = row \<and> j < k then grid b ! row ! j else grid nb ! i ! j)"
    using Suc.IH Suc.prems unfolding bk_def by auto
  define r where "r = setCell bk (int row) (int k) (grid b ! row ! k)"
  have f: "fold ?step [0..<Suc k] nb = r"
    unfolding r_def bk_def using k assms(3) by (simp add: getCell_nat)
  have w: "wf_board r" "size_b r = ?n"
    unfolding r_def using IH(1,2) by (simp_all add: wf_setCell)
  have C: "\<forall>i<?n. \<forall>j<?n. grid r ! i ! j =
        (if i = row \<and> j < Suc k then grid b ! row ! j else grid nb ! i ! j)"
    unfolding r_def using k assms(3) IH(1,2)
    by (auto simp: nth_setCell IH(3) less_Suc_eq)
  show ?case unfolding f using w C by blast
qed

lemma clone_prefix:
  assumes "wf_board nb" "size_b nb = size_b b" "k \<le> size_b b"
  defines "nb' \<equiv> fold (\<lambda>row newBoard.
        fold (\<lambda>col newBoard.
            setCell newBoard (int row) (int col) (getCell b (int row) (int col)))
          [0..<size_b b] newBoard) [0..<k] nb"
  shows "wf_board nb' \<and> size_b nb' = size_b b \<and>
     (\<forall>i<size_b b. \<forall>j<size_b b. grid nb' ! i ! j =
        (if i < k then grid b ! i ! j else grid nb ! i ! j))"
  unfolding nb'_def using assms(3)
proof (induction k)
  case 0
  then show ?case using assms(1,2) by simp
next
  case (Suc k)
  let ?n = "size_b b"
  let ?inner = "(\<lambda>row newBoard.
        fold (\<lambda>col newBoard.
            setCell newBoard (int row) (int col) (getCell b (int row) (int col)))
          [0..<size_b b] newBoard)"
  define bk where "bk = fold ?inner [0..<k] nb"
  have k: "k < ?n" using Suc.prems by simp
  have IH: "wf_board bk" "size_b bk = ?n"
    "\<And>i j. i < ?n \<Longrightarrow> j < ?n \<Longrightarrow> grid bk ! i ! j =
        (if i < k then grid b ! i ! j else grid nb ! i ! j)"
    using Suc.IH Suc.prems unfolding bk_def by auto
  define r where "r = ?inner k bk"
  have f: "fold ?inner [0..<Suc k] nb = r"
    unfolding r_def bk_def by simp
  note rp = clone_row_prefix[OF IH(1,2) k order_refl, folded r_def]
  have C: "\<forall>i<?n. \<forall>j<?n. grid r ! i ! j =
        (if i < Suc k then grid b ! i ! j else grid nb ! i ! j)"
    using rp by (auto simp: IH(3) less_Suc_eq)
  show ?case unfolding f using rp C by blast
qed

lemma clone_eq:
  assumes "wf_board b"
  shows "clone b = b"
proof (rule board_eqI)
  have s: "size_b (new_Board (size_b b)) = size_b b"
    by (simp add: new_Board_def initialize_def)
  note cp = clone_prefix[OF wf_new_Board s order_refl, folded clone_def]
  show "wf_board (clone b)" using cp by blast
  show "wf_board b" by (rule assms)
  show "size_b (clone b) = size_b b" using cp by blast
  fix i j assume "i < size_b (clone b)" "j < size_b (clone b)"
  then show "grid (clone b) ! i ! j = grid b ! i ! j" using cp by simp
qed

lemma equals_refl: "equals b b"
  by (simp add: equals_def list_all_iff)

lemma canMove_store:
  assumes "canMove h r d = (h', can)"
  shows "length h' = Suc (length h) \<and> (\<forall>i<length h. h' ! i = h ! i)"
  using assms
  by (auto simp: canMove_def clone_ref_def call_def Let_def nth_append
        split: if_splits prod.splits)

section \<open>The engine: a rejected move\<close>

lemma moveFor_cases:
  assumes "moveFor d = Some f"
  obtains "d = Str ''left''" "f = moveLeft" | "d = Str ''right''" "f = moveRight"
    | "d = Str ''up''" "f = moveUp" | "d = Str ''down''" "f = moveDown"
  using assms by (auto simp: moveFor_def split: if_splits)

lemma moveFor_props:
  assumes "moveFor d = Some f" "wf_board b"
  shows "wf_board (fst (f b))" "size_b (fst (f b)) = size_b b"
    "moved (snd (f b)) \<longleftrightarrow> grid (fst (f b)) \<noteq> grid b"
  using assms(1)
  by (cases rule: moveFor_cases;
      simp add: wf_moves[OF assms(2)] moveLeft_moved_iff[OF assms(2)] moveRight_moved_iff[OF assms(2)]
        moveUp_moved_iff[OF assms(2)] moveDown_moved_iff[OF assms(2)])+

lemma moveFor_valid: "moveFor d = Some f \<Longrightarrow> validateDirection d"
  by (auto simp: moveFor_def validateDirection_def split: if_splits)

lemma validateGameState_ok:
  "0 \<le> score_e e \<Longrightarrow> 0 \<le> moveCount e \<Longrightarrow> validateGameState e = e"
  by (simp add: validateGameState_def)

lemma board_unchanged:
  "size_b b' = size_b b \<Longrightarrow> grid b' = grid b \<Longrightarrow> b' = (b::board)"
  by simp

section \<open>The engine: win and game-over checks\<close>

lemma scan_cells:
  assumes "wf_board b"
  shows "list_ex (\<lambda>row. list_ex (\<lambda>col. P (getCell b (int row) (int col))) [0..<size_b b]) [0..<size_b b]
     \<longleftrightarrow> list_ex (list_ex P) (grid b)"
proof -
  let ?n = "size_b b"
  have "list_ex (list_ex P) (grid b) \<longleftrightarrow> (\<exists>i\<in>{0..<?n}. \<exists>j\<in>{0..<?n}. P (grid b ! i ! j))"
  proof
    assume "list_ex (list_ex P) (grid b)"
    then obtain r c where r: "r \<in> set (grid b)" and c: "c \<in> set r" and p: "P c"
      by (auto simp: list_ex_iff)
    from r obtain i where i: "i < length (grid b)" "grid b ! i = r" by (auto simp: in_set_conv_nth)
    from c obtain j where j: "j < length r" "r ! j = c" by (auto simp: in_set_conv_nth)
    have "i < ?n" using i assms by (simp add: wf_grid_length)
    moreover have "j < ?n" using j r assms by (simp add: wf_rows)
    ultimately show "\<exists>i\<in>{0..<?n}. \<exists>j\<in>{0..<?n}. P (grid b ! i ! j)"
      using i j p by (intro bexI[where x = i] bexI[where x = j]) auto
  next
    assume "\<exists>i\<in>{0..<?n}. \<exists>j\<in>{0..<?n}. P (grid b ! i ! j)"
    then obtain i j where ij: "i < ?n" "j < ?n" "P (grid b ! i ! j)" by auto
    have "grid b ! i \<in> set (grid b)" using ij assms by (simp add: wf_grid_length)
    moreover have "grid b ! i ! j \<in> set (grid b ! i)" using ij assms by (simp add: wf_row_length)
    ultimately show "list_ex (list_ex P) (grid b)" using ij(3) by (auto simp: list_ex_iff)
  qed
  moreover have "list_ex (\<lambda>row. list_ex (\<lambda>col. P (getCell b (int row) (int col))) [0..<?n]) [0..<?n]
     \<longleftrightarrow> (\<exists>i\<in>{0..<?n}. \<exists>j\<in>{0..<?n}. P (grid b ! i ! j))"
    by (simp add: list_ex_iff getCell_nat)
  ultimately show ?thesis by simp
qed

lemma checkWinCondition_isWin:
  assumes "wf_board (h ! board e)" "size_b (h ! board e) = size_e e"
  shows "isWin (checkWinCondition e h) \<longleftrightarrow> isWin e \<or> hasWinningTile (h ! board e)"
  using scan_cells[OF assms(1), of "\<lambda>c. c = Num 2048"]
  by (simp add: checkWinCondition_def hasWinningTile_def assms(2))

lemma checkWinCondition_fields:
  "board (checkWinCondition e h) = board e" "size_e (checkWinCondition e h) = size_e e"
  "isGameOver (checkWinCondition e h) = isGameOver e"
  "score_e (checkWinCondition e h) = score_e e" "moveCount (checkWinCondition e h) = moveCount e"
  by (simp_all add: checkWinCondition_def)

lemma canMove_flag:
  assumes "r < length h"
  shows "snd (canMove h r d) = canMoveFlag (h ! r) d"
  using assms
  by (simp add: canMove_def canMoveFlag_def moveFor_def clone_ref_def call_def Let_def
        nth_append split: prod.splits)

lemma anyCanMove_result:
  assumes "r < length h" "anyCanMove h r ds = (h', can)"
  shows "can = list_ex (canMoveFlag (h ! r)) ds \<and> length h \<le> length h' \<and>
         (\<forall>i<length h. h' ! i = h ! i)"
  using assms
proof (induction ds arbitrary: h)
  case Nil
  then show ?case by simp
next
  case (Cons d ds)
  obtain h1 c1 where c: "canMove h r d = (h1, c1)" by (cases "canMove h r d")
  have st: "length h1 = Suc (length h)" "\<forall>i<length h. h1 ! i = h ! i"
    using canMove_store[OF c] by simp_all
  have fl: "c1 = canMoveFlag (h ! r) d" using canMove_flag[OF Cons.prems(1), of d] c by simp
  show ?case
  proof (cases c1)
    case True
    then show ?thesis using Cons.prems c st fl by auto
  next
    case False
    then have rest: "anyCanMove h1 r ds = (h', can)" using Cons.prems(2) c by simp
    have r1: "r < length h1" using Cons.prems(1) st by simp
    have "h1 ! r = h ! r" using st Cons.prems(1) by simp
    then show ?thesis using Cons.IH[OF r1 rest] st fl False by auto
  qed
qed

lemma checkGameOverCondition_result:
  assumes "board e < length h" "checkGameOverCondition e h = (e', h')"
  shows "board e' = board e" "h' ! board e = h ! board e" "length h \<le> length h'"
    "isWin e' = isWin e" "score_e e' = score_e e" "moveCount e' = moveCount e"
    "size_e e' = size_e e"
    "isGameOver e' \<longleftrightarrow> isGameOver e \<or>
       (\<not> isWin e \<and> isFull (h ! board e) \<and> \<not> list_ex (canMoveFlag (h ! board e)) directions)"
proof -
  obtain h1 can where a: "anyCanMove h (board e) directions = (h1, can)"
    by (cases "anyCanMove h (board e) directions")
  note r = anyCanMove_result[OF assms(1) a]
  note * = assms(2)[unfolded checkGameOverCondition_def a[unfolded directions_def] Let_def prod.case]
  show "board e' = board e" using * by (auto split: if_splits)
  show "h' ! board e = h ! board e" using * r assms(1) by (auto split: if_splits)
  show "length h \<le> length h'" using * r by (auto split: if_splits)
  show "isWin e' = isWin e" using * by (auto split: if_splits)
  show "score_e e' = score_e e" using * by (auto split: if_splits)
  show "moveCount e' = moveCount e" using * by (auto split: if_splits)
  show "size_e e' = size_e e" using * by (auto split: if_splits)
  show "isGameOver e' \<longleftrightarrow> isGameOver e \<or>
       (\<not> isWin e \<and> isFull (h ! board e) \<and> \<not> list_ex (canMoveFlag (h ! board e)) directions)"
    using * r by (auto split: if_splits)
qed

section \<open>The engine: an accepted move\<close>

lemma addRandomTile_shape:
  assumes "addRandomTile b g = Inr (ok, b', g')" "wf_board b"
  shows "wf_board b'" "size_b b' = size_b b"
  using assms
  by (auto simp: addRandomTile_def Let_def wf_setCell split: if_splits prod.splits)

lemma validateDirection_moveFor: "validateDirection d \<Longrightarrow> \<exists>f. moveFor d = Some f"
  by (auto simp: validateDirection_def moveFor_def split: input.splits)

lemma saveState_eq:
  "saveState e h =
     (e\<lparr>previousState :=
          Some \<lparr>board_s = length h, score_s = score_e e, isWin_s = isWin e,
                isGameOver_s = isGameOver e, moveCount_s = moveCount e\<rparr>\<rparr>,
      h @ [clone (h ! board e)])"
  by (simp add: saveState_def clone_ref_def)

text \<open>The part of move behind the two guards, with the state after each statement named.\<close>

lemma move_step:
  assumes "engine_ok e h" "\<not> isWin e" "\<not> isGameOver e" "moveFor direction = Some f"
    and b3_def: "b3 = fst (f (h ! board e))" and res_def: "res = snd (f (h ! board e))"
    and e2_def: "e2 = fst (saveState e h)"
    and h3_def: "h3 = (h @ [clone (h ! board e)])[board e := b3]"
    and e3_def: "e3 = e2\<lparr>score_e := score_e e2 + score res, moveCount := moveCount e2 + 1\<rparr>"
  shows "move e h direction g =
      (if moved res then
         (case validateMoveResult res of
            Inl err \<Rightarrow> Inl err
          | Inr _ \<Rightarrow>
              (case addRandomTile b3 g of
                 Inl err \<Rightarrow> Inl err
               | Inr (_, b4, g4) \<Rightarrow>
                   (case checkGameOverCondition (checkWinCondition e3 (h3[board e := b4]))
                           (h3[board e := b4]) of
                      (e6, h6) \<Rightarrow> Inr (True, e6, h6, g4))))
       else Inr (False, e2, h3, g))"
proof -
  let ?b = "h ! board e"
  have e: "board e < length h" "0 \<le> score_e e" "0 \<le> moveCount e"
    using assms(1) by (simp_all add: engine_ok_def)
  have vd: "validateDirection direction" using assms(4) by (rule moveFor_valid)
  have v: "validateGameState e = e" using e by (simp add: validateGameState_ok)
  define h2 where "h2 = h @ [clone ?b]"
  have s: "saveState e h = (e2, h2)" by (simp add: e2_def h2_def saveState_eq)
  have e2b: "board e2 = board e" by (simp add: e2_def saveState_eq)
  have h2b: "h2 ! board e = ?b" using e(1) by (simp add: h2_def nth_append)
  have h3: "h3 = h2[board e := b3]" by (simp add: h3_def h2_def)
  have c: "call f h2 (board e2) = (h3, res)"
    unfolding h3 by (simp add: call_def e2b h2b res_def b3_def split: prod.splits)
  have e3b: "board e3 = board e" by (simp add: e3_def e2b)
  have le: "board e < length h2" using e(1) by (simp add: h2_def)
  have h3b: "h3 ! board e = b3" using le by (simp add: h3)
  show ?thesis
    using vd assms(2,3)
    by (simp add: move_def v s assms(4) c Let_def)
       (simp add: e3_def[symmetric] e3b h3b Let_def split: sum.split prod.split)
qed

lemma move_True_result:
  assumes ok: "engine_ok e h" and mv: "move e h direction g = Inr (True, e', h', g')"
  shows "\<not> isWin e" "\<not> isGameOver e"
    "board e' = board e" "size_e e' = size_e e" "board e' < length h'"
    "wf_board (h' ! board e')" "size_b (h' ! board e') = size_e e'"
    "isWin e' \<longleftrightarrow> hasWinningTile (h' ! board e')"
    "isGameOver e' \<longleftrightarrow>
       \<not> isWin e' \<and> isFull (h' ! board e') \<and> \<not> list_ex (canMoveFlag (h' ! board e')) directions"
    "score_e e \<le> score_e e'" "moveCount e' = moveCount e + 1"
    "\<exists>f okt. moveFor direction = Some f \<and>
        addRandomTile (fst (f (h ! board e))) g = Inr (okt, h' ! board e', g')"
proof -
  let ?b = "h ! board e"
  have e: "board e < length h" "wf_board ?b" "size_b ?b = size_e e"
    "0 \<le> score_e e" "0 \<le> moveCount e"
    using ok by (simp_all add: engine_ok_def)
  show nw: "\<not> isWin e" and ng: "\<not> isGameOver e"
    using mv by (auto simp: move_def split: if_splits)
  have vd: "validateDirection direction"
    using mv by (auto simp: move_def split: if_splits)
  obtain f where f: "moveFor direction = Some f"
    using validateDirection_moveFor[OF vd] by blast
  define b3 where "b3 = fst (f ?b)"
  define res where "res = snd (f ?b)"
  define e2 where "e2 = fst (saveState e h)"
  define h3 where "h3 = (h @ [clone ?b])[board e := b3]"
  define e3 where "e3 = e2\<lparr>score_e := score_e e2 + score res, moveCount := moveCount e2 + 1\<rparr>"
  note step = move_step[OF ok nw ng f b3_def res_def e2_def h3_def e3_def, of g]
  have e3: "board e3 = board e" "size_e e3 = size_e e" "isWin e3 = isWin e"
    "isGameOver e3 = isGameOver e" "score_e e3 = score_e e + score res"
    "moveCount e3 = moveCount e + 1"
    by (simp_all add: e3_def e2_def saveState_eq)
  have md: "moved res" using mv unfolding step by (auto split: if_splits)
  have sc: "0 \<le> score res"
    using mv md unfolding step by (auto simp: validateMoveResult_def split: if_splits sum.splits)
  obtain okt b4 where a: "addRandomTile b3 g = Inr (okt, b4, g')"
    and fin: "checkGameOverCondition (checkWinCondition e3 (h3[board e := b4])) (h3[board e := b4]) = (e', h')"
    using mv md sc unfolding step
    by (auto simp: validateMoveResult_def split: if_splits sum.splits prod.splits)
  define h4 where "h4 = h3[board e := b4]"
  define e5 where "e5 = checkWinCondition e3 h4"
  have wf3: "wf_board b3" "size_b b3 = size_b ?b"
    using moveFor_props[OF f e(2)] by (simp_all add: b3_def)
  have b4: "wf_board b4" "size_b b4 = size_e e"
    using addRandomTile_shape[OF a wf3(1)] wf3(2) e(3) by simp_all
  have l4: "board e < length h4" using e(1) by (simp add: h4_def h3_def)
  have h4b: "h4 ! board e = b4" using e(1) by (simp add: h4_def h3_def)
  have e5: "board e5 = board e" "size_e e5 = size_e e" "isGameOver e5 = isGameOver e"
    "score_e e5 = score_e e3" "moveCount e5 = moveCount e3"
    by (simp_all add: e5_def checkWinCondition_fields e3)
  have w5: "isWin e5 \<longleftrightarrow> hasWinningTile b4"
    using checkWinCondition_isWin[of h4 e3] b4 nw by (simp add: e5_def e3 h4b)
  have l5: "board e5 < length h4" using l4 e5 by simp
  have fin': "checkGameOverCondition e5 h4 = (e', h')"
    using fin by (simp add: e5_def h4_def)
  note r = checkGameOverCondition_result[OF l5 fin', unfolded e5(1) h4b]
  show be: "board e' = board e" using r(1) .
  show "size_e e' = size_e e" using r(7) e5 by simp
  show "board e' < length h'" using r(3) l4 be by simp
  show "wf_board (h' ! board e')" using r(2) b4 be by simp
  show "size_b (h' ! board e') = size_e e'" using r(2,7) b4 be e5 by simp
  show "isWin e' \<longleftrightarrow> hasWinningTile (h' ! board e')" using r(2,4) w5 be by simp
  show "isGameOver e' \<longleftrightarrow>
       \<not> isWin e' \<and> isFull (h' ! board e') \<and> \<not> list_ex (canMoveFlag (h' ! board e')) directions"
    using r(2,4,8) e5(3) ng be by simp
  show "score_e e \<le> score_e e'" using r(5) e5 e3 sc by simp
  show "moveCount e' = moveCount e + 1" using r(6) e5 e3 by simp
  show "\<exists>f okt. moveFor direction = Some f \<and>
        addRandomTile (fst (f (h ! board e))) g = Inr (okt, h' ! board e', g')"
    using f a r(2) be by (auto simp: b3_def)
qed

section \<open>The engine: validating a new game\<close>

lemma wf_initialize: "wf_board (initialize b)" "size_b (initialize b) = size_b b"
  by (simp_all add: initialize_def wf_board_def list_all_iff)

lemma scan_error_cols:
  "fold (\<lambda>col acc.
          (case acc of
             Inl err \<Rightarrow> Inl err
           | Inr tileCount \<Rightarrow>
               (let v = getCell b (int row) (int col)
                in if v \<noteq> Num 0 then
                     (if v \<noteq> Num 2 \<and> v \<noteq> Num 4 then Inl (InvalidInitialTileValue v)
                      else Inr (tileCount + 1))
                   else Inr tileCount))) cols (Inl err) = Inl err"
  by (induction cols) simp_all

lemma scan_cols:
  assumes "wf_board b" "row < size_b b" "k \<le> size_b b"
    and "fold (\<lambda>col acc.
          (case acc of
             Inl err \<Rightarrow> Inl err
           | Inr tileCount \<Rightarrow>
               (let v = getCell b (int row) (int col)
                in if v \<noteq> Num 0 then
                     (if v \<noteq> Num 2 \<and> v \<noteq> Num 4 then Inl (InvalidInitialTileValue v)
                      else Inr (tileCount + 1))
                   else Inr tileCount))) [0..<k] (Inr t) = Inr t'"
  shows "t' = t + length (filter (\<lambda>c. c \<noteq> Num 0) (take k (grid b ! row))) \<and>
         (\<forall>c\<in>set (take k (grid b ! row)). c = Num 0 \<or> c = Num 2 \<or> c = Num 4)"
  using assms(3,4)
proof (induction k arbitrary: t')
  case 0
  then show ?case by simp
next
  case (Suc k)
  let ?step = "(\<lambda>col acc.
          (case acc of
             Inl err \<Rightarrow> Inl err
           | Inr tileCount \<Rightarrow>
               (let v = getCell b (int row) (int col)
                in if v \<noteq> Num 0 then
                     (if v \<noteq> Num 2 \<and> v \<noteq> Num 4 then Inl (InvalidInitialTileValue v)
                      else Inr (tileCount + 1))
                   else Inr tileCount)))"
  have k: "k < size_b b" using Suc.prems by simp
  have lr: "length (grid b ! row) = size_b b" using assms(1,2) by (rule wf_row_length)
  have f: "fold ?step [0..<Suc k] (Inr t) = ?step k (fold ?step [0..<k] (Inr t))" by simp
  obtain t0 where t0: "fold ?step [0..<k] (Inr t) = Inr t0"
    using Suc.prems(2) unfolding f by (cases "fold ?step [0..<k] (Inr t)") auto
  have IH: "t0 = t + length (filter (\<lambda>c. c \<noteq> Num 0) (take k (grid b ! row)))"
    "\<forall>c\<in>set (take k (grid b ! row)). c = Num 0 \<or> c = Num 2 \<or> c = Num 4"
    using Suc.IH[OF _ t0] k by simp_all
  have v: "getCell b (int row) (int k) = grid b ! row ! k"
    using assms(2) k by (simp add: getCell_nat)
  have last: "?step k (Inr t0) = Inr t'" using Suc.prems(2) unfolding f t0 .
  have tk: "take (Suc k) (grid b ! row) = take k (grid b ! row) @ [grid b ! row ! k]"
    using k lr by (simp add: take_Suc_conv_app_nth)
  show ?case
    using last IH unfolding tk by (auto simp: v Let_def split: if_splits)
qed

lemma scan_error_rows:
  "fold (\<lambda>row acc.
           fold (\<lambda>col acc.
              (case acc of
                 Inl err \<Rightarrow> Inl err
               | Inr tileCount \<Rightarrow>
                   (let v = getCell b (int row) (int col)
                    in if v \<noteq> Num 0 then
                         (if v \<noteq> Num 2 \<and> v \<noteq> Num 4 then Inl (InvalidInitialTileValue v)
                          else Inr (tileCount + 1))
                       else Inr tileCount)))
             cols acc) rws (Inl err) = Inl err"
  by (induction rws) (simp_all add: scan_error_cols)

lemma scan_rows:
  assumes "wf_board b" "k \<le> size_b b"
    and "fold (\<lambda>row acc.
           fold (\<lambda>col acc.
              (case acc of
                 Inl err \<Rightarrow> Inl err
               | Inr tileCount \<Rightarrow>
                   (let v = getCell b (int row) (int col)
                    in if v \<noteq> Num 0 then
                         (if v \<noteq> Num 2 \<and> v \<noteq> Num 4 then Inl (InvalidInitialTileValue v)
                          else Inr (tileCount + 1))
                       else Inr tileCount)))
             [0..<size_b b] acc) [0..<k] (Inr t) = Inr t'"
  shows "t' = t + length (filter (\<lambda>c. c \<noteq> Num 0) (concat (take k (grid b)))) \<and>
         (\<forall>c\<in>set (concat (take k (grid b))). c = Num 0 \<or> c = Num 2 \<or> c = Num 4)"
  using assms(2,3)
proof (induction k arbitrary: t')
  case 0
  then show ?case by simp
next
  case (Suc k)
  let ?inner = "(\<lambda>row acc.
           fold (\<lambda>col acc.
              (case acc of
                 Inl err \<Rightarrow> Inl err
               | Inr tileCount \<Rightarrow>
                   (let v = getCell b (int row) (int col)
                    in if v \<noteq> Num 0 then
                         (if v \<noteq> Num 2 \<and> v \<noteq> Num 4 then Inl (InvalidInitialTileValue v)
                          else Inr (tileCount + 1))
                       else Inr tileCount)))
             [0..<size_b b] acc)"
  have k: "k < size_b b" using Suc.prems by simp
  have lg: "length (grid b) = size_b b" using assms(1) by (rule wf_grid_length)
  have lr: "length (grid b ! k) = size_b b" using assms(1) k by (rule wf_row_length)
  have f: "fold ?inner [0..<Suc k] (Inr t) = ?inner k (fold ?inner [0..<k] (Inr t))" by simp
  obtain t0 where t0: "fold ?inner [0..<k] (Inr t) = Inr t0"
    using Suc.prems(2) unfolding f
    by (cases "fold ?inner [0..<k] (Inr t)") (auto simp: scan_error_cols)
  have IH: "t0 = t + length (filter (\<lambda>c. c \<noteq> Num 0) (concat (take k (grid b))))"
    "\<forall>c\<in>set (concat (take k (grid b))). c = Num 0 \<or> c = Num 2 \<or> c = Num 4"
    using Suc.IH[OF _ t0] k by simp_all
  have last: "?inner k (Inr t0) = Inr t'" using Suc.prems(2) unfolding f t0 .
  note sc = scan_cols[OF assms(1) k order_refl last, unfolded lr[symmetric] take_all_iff[THEN iffD2, OF order_refl]]
  have tk: "take (Suc k) (grid b) = take k (grid b) @ [grid b ! k]"
    using k lg by (simp add: take_Suc_conv_app_nth)
  show ?case
    using sc IH unfolding tk by auto
qed

lemma validateInitialization_ok:
  assumes "wf_board (h ! board e)" "size_b (h ! board e) = size_e e"
    and "validateInitialization e h = Inr u"
  shows "length (tiles (h ! board e)) = 2 \<and> set (tiles (h ! board e)) \<subseteq> {Num 2, Num 4}"
proof -
  let ?b = "h ! board e"
  let ?scan = "fold (\<lambda>row acc.
           fold (\<lambda>col acc.
              (case acc of
                 Inl err \<Rightarrow> Inl err
               | Inr tileCount \<Rightarrow>
                   (let v = getCell ?b (int row) (int col)
                    in if v \<noteq> Num 0 then
                         (if v \<noteq> Num 2 \<and> v \<noteq> Num 4 then Inl (InvalidInitialTileValue v)
                          else Inr (tileCount + 1))
                       else Inr tileCount)))
             [0..<size_b ?b] acc) [0..<size_b ?b] (Inr (0::nat))"
  have v: "validateInitialization e h =
     (case ?scan of Inl err \<Rightarrow> Inl err
      | Inr tileCount \<Rightarrow> if tileCount \<noteq> 2 then Inl (InvalidInitialTileCount tileCount) else Inr ())"
    by (simp add: validateInitialization_def assms(2))
  obtain t where t: "?scan = Inr t" "t = 2"
    using assms(3) unfolding v by (cases ?scan) (auto split: if_splits)
  have lg: "length (grid ?b) = size_b ?b" using assms(1) by (rule wf_grid_length)
  note sr = scan_rows[OF assms(1) order_refl t(1), unfolded lg[symmetric] take_all_iff[THEN iffD2, OF order_refl]]
  show ?thesis using sr t(2) by (auto simp: tiles_def)
qed

section \<open>The engine: after the end of a game\<close>

lemma move_after_end:
  "isWin e \<or> isGameOver e \<Longrightarrow> move e h direction g = Inr (False, e, h, g)"
  by (auto simp: move_def)

lemma moves_after_end:
  "isWin e \<or> isGameOver e \<Longrightarrow> moves e h g ds = Inr (map (\<lambda>_. False) ds, e, h, g)"
  by (induction ds) (simp_all add: move_after_end)

lemma restart_flags:
  assumes "restart e h g = Inr (e', h', g')"
  shows "\<not> isWin e'" "\<not> isGameOver e'"
  using assms
  by (auto simp: restart_def initializeGame_def Let_def split: sum.splits prod.splits)

section \<open>Random tiles always land\<close>

text \<open>
  With draws in \<open>[0, 1)\<close> the index \<open>addRandomTile\<close> computes is inside the array of empty
  cells, so the call returns: it either finds no empty cell and changes nothing, or writes
  a 2 or a 4 into one of them.
\<close>

lemma collect_cols:
  "fold (\<lambda>col emptyCells. if P col then emptyCells @ [(row, col)] else emptyCells) cols acc =
   acc @ map (Pair row) (filter P cols)"
  by (induction cols arbitrary: acc) simp_all

lemma collect_rows:
  "fold (\<lambda>row emptyCells. emptyCells @ F row) rws acc = acc @ concat (map F rws)"
  by (induction rws arbitrary: acc) simp_all

lemma getEmptyCells_eq:
  "getEmptyCells b =
     concat (map (\<lambda>row. map (Pair row) (filter (\<lambda>col. grid b ! row ! col = Num 0) [0..<size_b b]))
       [0..<size_b b])"
  unfolding getEmptyCells_def collect_cols
  using collect_rows[of "\<lambda>row. map (Pair row) (filter (\<lambda>col. grid b ! row ! col = Num 0) [0..<size_b b])"
      "[0..<size_b b]" "[]"]
  by simp

lemma set_getEmptyCells:
  "set (getEmptyCells b) = {(i, j). i < size_b b \<and> j < size_b b \<and> grid b ! i ! j = Num 0}"
  by (auto simp: getEmptyCells_eq)

lemma random_ok: "rng_ok g \<Longrightarrow> random g = (r, g') \<Longrightarrow> 0 \<le> r \<and> r < 1 \<and> rng_ok g'"
  by (auto simp: rng_ok_def random_def)

lemma floor_index:
  fixes r :: rat
  assumes "0 \<le> r" "r < 1" "0 < n"
  shows "0 \<le> \<lfloor>r * of_nat n\<rfloor>" "\<lfloor>r * of_nat n\<rfloor> < int n"
proof -
  show "0 \<le> \<lfloor>r * of_nat n\<rfloor>" using assms by simp
  have "r * of_nat n < of_nat n" using assms by simp
  then show "\<lfloor>r * of_nat n\<rfloor> < int n" by (simp add: floor_less_iff)
qed

lemma addRandomTile_returns:
  assumes "rng_ok g"
  shows "\<exists>ok b' g'. addRandomTile b g = Inr (ok, b', g') \<and> rng_ok g' \<and>
          (if getEmptyCells b = [] then \<not> ok \<and> b' = b
           else ok \<and> (\<exists>i j v. (i, j) \<in> set (getEmptyCells b) \<and> (v = Num 2 \<or> v = Num 4) \<and>
                         b' = setCell b (int i) (int j) v))"
proof (cases "getEmptyCells b = []")
  case True
  then show ?thesis using assms by (auto simp: addRandomTile_def)
next
  case False
  let ?ec = "getEmptyCells b"
  obtain r1 g1 where r1: "random g = (r1, g1)" by (cases "random g")
  obtain r2 g2 where r2: "random g1 = (r2, g2)" by (cases "random g1")
  have o1: "0 \<le> r1" "r1 < 1" "rng_ok g1" using random_ok[OF assms r1] by simp_all
  have o2: "rng_ok g2" using random_ok[OF o1(3) r2] by simp
  have n: "0 < length ?ec" using False by simp
  define idx where "idx = \<lfloor>r1 * of_nat (length ?ec)\<rfloor>"
  have idx: "0 \<le> idx" "idx < int (length ?ec)"
    unfolding idx_def using floor_index[OF o1(1,2) n] by simp_all
  obtain i j where ij: "?ec ! nat idx = (i, j)" by (cases "?ec ! nat idx")
  have mem: "(i, j) \<in> set ?ec" using idx ij by (metis nat_less_iff nth_mem)
  define v where "v = (if r2 < 9 / 10 then Num 2 else Num 4)"
  have nn: "0 \<le> r1 * of_nat (length ?ec)" using o1 by simp
  have "addRandomTile b g = Inr (True, setCell b (int i) (int j) v, g2)"
    using False idx nn
    by (simp add: addRandomTile_def Let_def r1 r2 idx_def[symmetric] ij v_def)
  moreover have "v = Num 2 \<or> v = Num 4" by (simp add: v_def)
  ultimately show ?thesis using False o2 mem by auto
qed

section \<open>Natural cells and scores\<close>

lemma natural_allCells: "natural b \<longleftrightarrow> allCells natCell (grid b)"
  by (simp add: natural_def allCells_def list_all_iff)

lemma natCell_simps [simp]: "natCell (Num v) \<longleftrightarrow> 0 \<le> v" "\<not> natCell Null"
  by (simp_all add: natCell_def)

lemma mergeRec_natCells:
  "\<forall>c\<in>set line. natCell c \<Longrightarrow> \<forall>c\<in>set (fst (mergeRec line)). natCell c"
proof (induction line rule: mergeRec.induct)
  case (1 a b rest)
  show ?case
  proof (cases "a = b")
    case True
    have "natCell a" using "1.prems" by simp
    then have d: "natCell (Num (toNumber a * 2))" by (simp add: natCell_def)
    have "\<forall>c\<in>set rest. natCell c" using "1.prems" by simp
    then have "\<forall>c\<in>set (fst (mergeRec rest)). natCell c" using "1.IH"(1)[OF True] by blast
    then show ?thesis using True d by simp
  next
    case False
    have a: "natCell a" using "1.prems" by simp
    have "\<forall>c\<in>set (b # rest). natCell c" using "1.prems" by simp
    then have "\<forall>c\<in>set (fst (mergeRec (b # rest))). natCell c" using "1.IH"(3)[OF False] by blast
    then show ?thesis using False a by simp
  qed
qed simp_all

lemma mergedValues_nonneg:
  "\<forall>c\<in>set line. natCell c \<Longrightarrow> \<forall>v\<in>set (mergedValues line). 0 \<le> v"
proof (induction line rule: mergedValues.induct)
  case (1 a b rest)
  have "0 \<le> toNumber a * 2" using "1.prems" by (simp add: natCell_def)
  then show ?case using 1 by auto
qed simp_all

lemma rowScore_nonneg:
  assumes "\<forall>c\<in>set r. natCell c"
  shows "0 \<le> rowScore r"
proof -
  have "\<forall>c\<in>set (filter (\<lambda>v. v \<noteq> Num 0) r). natCell c" using assms by simp
  then have "\<forall>v\<in>set (mergedValues (filter (\<lambda>v. v \<noteq> Num 0) r)). 0 \<le> v"
    by (rule mergedValues_nonneg)
  then show ?thesis
    by (simp add: rowScore_def mergeLine_eq mergeRec_score sum_list_nonneg)
qed

lemma padLine_cells: "c \<in> set (padLine n m) \<Longrightarrow> c \<in> set m \<or> c = Num 0"
  by (auto simp: padLine_def)

lemma slideRow_natCells:
  assumes "\<forall>c\<in>set r. natCell c"
  shows "\<forall>c\<in>set (slideRow n r). natCell c"
proof
  fix c assume "c \<in> set (slideRow n r)"
  then have "c \<in> set (fst (mergeRec (filter (\<lambda>v. v \<noteq> Num 0) r))) \<or> c = Num 0"
    unfolding slideRow_def mergeLine_eq by (rule padLine_cells)
  moreover have "\<forall>c\<in>set (fst (mergeRec (filter (\<lambda>v. v \<noteq> Num 0) r))). natCell c"
    by (rule mergeRec_natCells) (use assms in simp)
  ultimately show "natCell c" by auto
qed

lemma allCells_slide: "allCells natCell g \<Longrightarrow> allCells natCell (map (slideRow n) g)"
  using slideRow_natCells by (auto simp: allCells_def)

lemma allCells_rev: "allCells P (map rev g) = allCells P g"
  by (auto simp: allCells_def)

lemma allCells_transposed:
  assumes "length g = n" "\<And>r. r \<in> set g \<Longrightarrow> length r = n" "allCells P g"
  shows "allCells P (transposed n g)"
proof -
  have "P (g ! j ! i)" if "i < n" "j < n" for i j
  proof -
    have r: "g ! j \<in> set g" using that assms(1) by simp
    then have "g ! j ! i \<in> set (g ! j)" using that assms(2) by simp
    then show ?thesis using r assms(3) by (auto simp: allCells_def)
  qed
  then show ?thesis by (auto simp: allCells_def transposed_def)
qed

lemma allCells_score: "allCells natCell g \<Longrightarrow> 0 \<le> sum_list (map rowScore g)"
  by (auto simp: allCells_def intro!: sum_list_nonneg rowScore_nonneg)

lemma moveFor_natural:
  assumes "moveFor d = Some f" "wf_board b" "natural b"
  shows "natural (fst (f b))" "0 \<le> score (snd (f b))"
proof -
  let ?n = "size_b b"
  note l = wf_grid_length[OF assms(2)] and r = wf_rows[OF assms(2)]
  have g: "allCells natCell (grid b)" using assms(3) by (simp add: natural_allCells)
  have t: "allCells natCell (transposed ?n (grid b))"
    using l r g by (rule allCells_transposed)
  have rt: "allCells natCell (map rev (transposed ?n (grid b)))"
    using t by (simp only: allCells_rev)
  have rg: "allCells natCell (map rev (grid b))"
    using g by (simp only: allCells_rev)
  have tl: "\<And>x. length (map (slideRow ?n) x) = length x" by simp
  have up: "allCells natCell (transposed ?n (map (slideRow ?n) (transposed ?n (grid b))))"
    by (rule allCells_transposed[OF _ _ allCells_slide[OF t]]) auto
  have down: "allCells natCell (transposed ?n
        (map rev (map (slideRow ?n) (map rev (transposed ?n (grid b))))))"
    by (rule allCells_transposed[OF _ _ allCells_slide[OF rt, THEN allCells_rev[THEN iffD2]]]) auto
  from assms(1) show "natural (fst (f b))"
  proof (cases rule: moveFor_cases)
    case 1
    then show ?thesis
      unfolding natural_allCells by (simp only: moveLeft_eq[OF assms(2)] fst_conv grid_upd allCells_slide[OF g])
  next
    case 2
    then show ?thesis
      unfolding natural_allCells
      by (simp only: moveRight_eq[OF assms(2)] fst_conv grid_upd allCells_rev allCells_slide[OF rg])
  next
    case 3
    then show ?thesis
      unfolding natural_allCells by (simp only: moveUp_eq[OF assms(2)] fst_conv grid_upd up)
  next
    case 4
    then show ?thesis
      unfolding natural_allCells by (simp only: moveDown_eq[OF assms(2)] fst_conv grid_upd down)
  qed
  from assms(1) show "0 \<le> score (snd (f b))"
  proof (cases rule: moveFor_cases)
    case 1
    then show ?thesis
      by (simp only: moveLeft_eq[OF assms(2)] snd_conv result.simps allCells_score[OF g])
  next
    case 2
    then show ?thesis
      by (simp only: moveRight_eq[OF assms(2)] snd_conv result.simps allCells_score[OF rg])
  next
    case 3
    then show ?thesis
      by (simp only: moveUp_eq[OF assms(2)] snd_conv result.simps allCells_score[OF t])
  next
    case 4
    then show ?thesis
      by (simp only: moveDown_eq[OF assms(2)] snd_conv result.simps allCells_score[OF rt])
  qed
qed

lemma natural_setCell:
  assumes "natural b" "natCell v"
  shows "natural (setCell b r c v)"
proof (cases "r \<ge> 0 \<and> r < int (size_b b) \<and> c \<ge> 0 \<and> c < int (size_b b)")
  case False
  then have "setCell b r c v = b" by (auto simp: setCell_def)
  then show ?thesis using assms(1) by simp
next
  case True
  let ?g = "grid b"
  have g: "allCells natCell ?g" using assms(1) by (simp add: natural_allCells)
  have "allCells natCell (?g[nat r := (?g ! nat r)[nat c := v]])"
  proof (cases "nat r < length ?g")
    case False
    then have "?g[nat r := (?g ! nat r)[nat c := v]] = ?g" by (simp add: list_update_beyond)
    then show ?thesis using g by simp
  next
    case True
    then have "?g ! nat r \<in> set ?g" by simp
    then have old: "\<forall>x\<in>set (?g ! nat r). natCell x" using g by (simp add: allCells_def)
    have new: "\<forall>x\<in>set ((?g ! nat r)[nat c := v]). natCell x"
    proof
      fix x assume "x \<in> set ((?g ! nat r)[nat c := v])"
      then have "x = v \<or> x \<in> set (?g ! nat r)"
        using set_update_subset_insert[of "?g ! nat r" "nat c" v] by auto
      then show "natCell x" using old assms(2) by auto
    qed
    show ?thesis
      unfolding allCells_def
    proof
      fix row assume "row \<in> set (?g[nat r := (?g ! nat r)[nat c := v]])"
      then have "row = (?g ! nat r)[nat c := v] \<or> row \<in> set ?g"
        using set_update_subset_insert[of ?g "nat r" "(?g ! nat r)[nat c := v]"] by auto
      then show "\<forall>x\<in>set row. natCell x" using new g by (auto simp: allCells_def)
    qed
  qed
  then show ?thesis using True by (simp add: natural_allCells setCell_def)
qed

section \<open>Counting tiles\<close>

lemma allCells_setCell:
  assumes "allCells P (grid b)" "P v"
  shows "allCells P (grid (setCell b r c v))"
proof (cases "r \<ge> 0 \<and> r < int (size_b b) \<and> c \<ge> 0 \<and> c < int (size_b b)")
  case False
  then have "setCell b r c v = b" by (auto simp: setCell_def)
  then show ?thesis using assms(1) by simp
next
  case True
  let ?g = "grid b"
  have "allCells P (?g[nat r := (?g ! nat r)[nat c := v]])"
  proof (cases "nat r < length ?g")
    case False
    then have "?g[nat r := (?g ! nat r)[nat c := v]] = ?g" by (simp add: list_update_beyond)
    then show ?thesis using assms(1) by simp
  next
    case True
    then have "?g ! nat r \<in> set ?g" by simp
    then have old: "\<forall>x\<in>set (?g ! nat r). P x" using assms(1) by (simp add: allCells_def)
    have new: "\<forall>x\<in>set ((?g ! nat r)[nat c := v]). P x"
    proof
      fix x assume "x \<in> set ((?g ! nat r)[nat c := v])"
      then have "x = v \<or> x \<in> set (?g ! nat r)"
        using set_update_subset_insert[of "?g ! nat r" "nat c" v] by auto
      then show "P x" using old assms(2) by auto
    qed
    show ?thesis
      unfolding allCells_def
    proof
      fix row assume "row \<in> set (?g[nat r := (?g ! nat r)[nat c := v]])"
      then have "row = (?g ! nat r)[nat c := v] \<or> row \<in> set ?g"
        using set_update_subset_insert[of ?g "nat r" "(?g ! nat r)[nat c := v]"] by auto
      then show "\<forall>x\<in>set row. P x" using new assms(1) by (auto simp: allCells_def)
    qed
  qed
  then show ?thesis using True by (simp add: setCell_def)
qed

lemma filter_update_length:
  assumes "j < length r" "\<not> P (r ! j)" "P v"
  shows "length (filter P (r[j := v])) = Suc (length (filter P r))"
proof -
  have a: "r[j := v] = take j r @ v # drop (Suc j) r"
    using assms(1) by (rule upd_conv_take_nth_drop)
  have b: "r = take j r @ r ! j # drop (Suc j) r"
    using assms(1) by (rule id_take_nth_drop)
  have "length (filter P r) = length (filter P (take j r)) + length (filter P (drop (Suc j) r))"
    by (subst b) (simp add: assms(2))
  then show ?thesis by (simp add: a assms(3))
qed

lemma concat_update:
  assumes "i < length g"
  shows "concat (g[i := r]) = concat (take i g) @ r @ concat (drop (Suc i) g)"
    and "concat g = concat (take i g) @ g ! i @ concat (drop (Suc i) g)"
proof -
  show "concat (g[i := r]) = concat (take i g) @ r @ concat (drop (Suc i) g)"
    by (simp add: upd_conv_take_nth_drop[OF assms])
  show "concat g = concat (take i g) @ g ! i @ concat (drop (Suc i) g)"
    by (subst id_take_nth_drop[OF assms]) simp
qed

lemma tiles_setCell:
  assumes "wf_board b" "i < size_b b" "j < size_b b" "grid b ! i ! j = Num 0" "v \<noteq> Num 0"
  shows "length (tiles (setCell b (int i) (int j) v)) = Suc (length (tiles b))"
proof -
  let ?P = "\<lambda>c. c \<noteq> Num 0"
  have li: "i < length (grid b)" using assms by (simp add: wf_grid_length)
  have lj: "j < length (grid b ! i)" using assms by (simp add: wf_row_length)
  have row: "length (filter ?P ((grid b ! i)[j := v])) = Suc (length (filter ?P (grid b ! i)))"
    using lj assms(4,5) by (intro filter_update_length) simp_all
  have "tiles b = filter ?P (concat (take i (grid b))) @ filter ?P (grid b ! i)
                    @ filter ?P (concat (drop (Suc i) (grid b)))"
    unfolding tiles_def by (subst concat_update(2)[OF li]) simp
  moreover have "tiles (setCell b (int i) (int j) v) =
      filter ?P (concat (take i (grid b))) @ filter ?P ((grid b ! i)[j := v])
        @ filter ?P (concat (drop (Suc i) (grid b)))"
    unfolding tiles_def using assms(2,3)
    by (simp add: setCell_nat concat_update(1)[OF li])
  ultimately show ?thesis using row by simp
qed

lemma scan_cols_ok:
  assumes "wf_board b" "row < size_b b" "k \<le> size_b b"
    and "\<forall>c\<in>set (take k (grid b ! row)). c = Num 0 \<or> c = Num 2 \<or> c = Num 4"
  shows "fold (\<lambda>col acc.
          (case acc of
             Inl err \<Rightarrow> Inl err
           | Inr tileCount \<Rightarrow>
               (let v = getCell b (int row) (int col)
                in if v \<noteq> Num 0 then
                     (if v \<noteq> Num 2 \<and> v \<noteq> Num 4 then Inl (InvalidInitialTileValue v)
                      else Inr (tileCount + 1))
                   else Inr tileCount))) [0..<k] (Inr t) =
         Inr (t + length (filter (\<lambda>c. c \<noteq> Num 0) (take k (grid b ! row))))"
  using assms(3,4)
proof (induction k)
  case 0
  then show ?case by simp
next
  case (Suc k)
  have k: "k < size_b b" using Suc.prems by simp
  have lr: "length (grid b ! row) = size_b b" using assms(1,2) by (rule wf_row_length)
  have tk: "take (Suc k) (grid b ! row) = take k (grid b ! row) @ [grid b ! row ! k]"
    using k lr by (simp add: take_Suc_conv_app_nth)
  have v: "getCell b (int row) (int k) = grid b ! row ! k"
    using assms(2) k by (simp add: getCell_nat)
  have okk: "grid b ! row ! k = Num 0 \<or> grid b ! row ! k = Num 2 \<or> grid b ! row ! k = Num 4"
    using Suc.prems(2) unfolding tk by simp
  have IH: "fold (\<lambda>col acc.
          (case acc of
             Inl err \<Rightarrow> Inl err
           | Inr tileCount \<Rightarrow>
               (let v = getCell b (int row) (int col)
                in if v \<noteq> Num 0 then
                     (if v \<noteq> Num 2 \<and> v \<noteq> Num 4 then Inl (InvalidInitialTileValue v)
                      else Inr (tileCount + 1))
                   else Inr tileCount))) [0..<k] (Inr t) =
         Inr (t + length (filter (\<lambda>c. c \<noteq> Num 0) (take k (grid b ! row))))"
    using Suc.IH Suc.prems unfolding tk by simp
  have f: "fold (\<lambda>col acc.
          (case acc of
             Inl err \<Rightarrow> Inl err
           | Inr tileCount \<Rightarrow>
               (let v = getCell b (int row) (int col)
                in if v \<noteq> Num 0 then
                     (if v \<noteq> Num 2 \<and> v \<noteq> Num 4 then Inl (InvalidInitialTileValue v)
                      else Inr (tileCount + 1))
                   else Inr tileCount))) [0..<Suc k] (Inr t) =
       (\<lambda>col acc.
          (case acc of
             Inl err \<Rightarrow> Inl err
           | Inr tileCount \<Rightarrow>
               (let v = getCell b (int row) (int col)
                in if v \<noteq> Num 0 then
                     (if v \<noteq> Num 2 \<and> v \<noteq> Num 4 then Inl (InvalidInitialTileValue v)
                      else Inr (tileCount + 1))
                   else Inr tileCount))) k (fold (\<lambda>col acc.
          (case acc of
             Inl err \<Rightarrow> Inl err
           | Inr tileCount \<Rightarrow>
               (let v = getCell b (int row) (int col)
                in if v \<noteq> Num 0 then
                     (if v \<noteq> Num 2 \<and> v \<noteq> Num 4 then Inl (InvalidInitialTileValue v)
                      else Inr (tileCount + 1))
                   else Inr tileCount))) [0..<k] (Inr t))"
    by simp
  show ?case
    unfolding f IH using okk by (auto simp: v tk Let_def)
qed

lemma scan_rows_ok:
  assumes "wf_board b" "k \<le> size_b b"
    and "\<forall>c\<in>set (concat (take k (grid b))). c = Num 0 \<or> c = Num 2 \<or> c = Num 4"
  shows "fold (\<lambda>row acc.
           fold (\<lambda>col acc.
              (case acc of
                 Inl err \<Rightarrow> Inl err
               | Inr tileCount \<Rightarrow>
                   (let v = getCell b (int row) (int col)
                    in if v \<noteq> Num 0 then
                         (if v \<noteq> Num 2 \<and> v \<noteq> Num 4 then Inl (InvalidInitialTileValue v)
                          else Inr (tileCount + 1))
                       else Inr tileCount)))
             [0..<size_b b] acc) [0..<k] (Inr t) =
         Inr (t + length (filter (\<lambda>c. c \<noteq> Num 0) (concat (take k (grid b)))))"
  using assms(2,3)
proof (induction k)
  case 0
  then show ?case by simp
next
  case (Suc k)
  have k: "k < size_b b" using Suc.prems by simp
  have lg: "length (grid b) = size_b b" using assms(1) by (rule wf_grid_length)
  have lr: "length (grid b ! k) = size_b b" using assms(1) k by (rule wf_row_length)
  have tk: "take (Suc k) (grid b) = take k (grid b) @ [grid b ! k]"
    using k lg by (simp add: take_Suc_conv_app_nth)
  have rowok: "\<forall>c\<in>set (take (size_b b) (grid b ! k)). c = Num 0 \<or> c = Num 2 \<or> c = Num 4"
    using Suc.prems(2) unfolding tk by (simp add: lr)
  have tl: "take (size_b b) (grid b ! k) = grid b ! k" by (simp add: lr)
  note sc = scan_cols_ok[OF assms(1) k order_refl rowok, unfolded tl]
  have IH: "fold (\<lambda>row acc.
           fold (\<lambda>col acc.
              (case acc of
                 Inl err \<Rightarrow> Inl err
               | Inr tileCount \<Rightarrow>
                   (let v = getCell b (int row) (int col)
                    in if v \<noteq> Num 0 then
                         (if v \<noteq> Num 2 \<and> v \<noteq> Num 4 then Inl (InvalidInitialTileValue v)
                          else Inr (tileCount + 1))
                       else Inr tileCount)))
             [0..<size_b b] acc) [0..<k] (Inr t) =
         Inr (t + length (filter (\<lambda>c. c \<noteq> Num 0) (concat (take k (grid b)))))"
    using Suc.IH Suc.prems unfolding tk by simp
  have f: "fold (\<lambda>row acc.
           fold (\<lambda>col acc.
              (case acc of
                 Inl err \<Rightarrow> Inl err
               | Inr tileCount \<Rightarrow>
                   (let v = getCell b (int row) (int col)
                    in if v \<noteq> Num 0 then
                         (if v \<noteq> Num 2 \<and> v \<noteq> Num 4 then Inl (InvalidInitialTileValue v)
                          else Inr (tileCount + 1))
                       else Inr tileCount)))
             [0..<size_b b] acc) [0..<Suc k] (Inr t) =
       (\<lambda>row acc.
           fold (\<lambda>col acc.
              (case acc of
                 Inl err \<Rightarrow> Inl err
               | Inr tileCount \<Rightarrow>
                   (let v = getCell b (int row) (int col)
                    in if v \<noteq> Num 0 then
                         (if v \<noteq> Num 2 \<and> v \<noteq> Num 4 then Inl (InvalidInitialTileValue v)
                          else Inr (tileCount + 1))
                       else Inr tileCount)))
             [0..<size_b b] acc) k (fold (\<lambda>row acc.
           fold (\<lambda>col acc.
              (case acc of
                 Inl err \<Rightarrow> Inl err
               | Inr tileCount \<Rightarrow>
                   (let v = getCell b (int row) (int col)
                    in if v \<noteq> Num 0 then
                         (if v \<noteq> Num 2 \<and> v \<noteq> Num 4 then Inl (InvalidInitialTileValue v)
                          else Inr (tileCount + 1))
                       else Inr tileCount)))
             [0..<size_b b] acc) [0..<k] (Inr t))"
    by simp
  show ?case
    unfolding f IH sc tk by simp
qed

lemma validateInitialization_passes:
  assumes "wf_board (h ! board e)" "size_b (h ! board e) = size_e e"
    and "allCells (\<lambda>c. c = Num 0 \<or> c = Num 2 \<or> c = Num 4) (grid (h ! board e))"
    and "length (tiles (h ! board e)) = 2"
  shows "validateInitialization e h = Inr ()"
proof -
  let ?b = "h ! board e"
  have lg: "length (grid ?b) = size_b ?b" using assms(1) by (rule wf_grid_length)
  have ok: "\<forall>c\<in>set (concat (take (size_b ?b) (grid ?b))). c = Num 0 \<or> c = Num 2 \<or> c = Num 4"
    using assms(3) by (auto simp: allCells_def lg[symmetric])
  note sr = scan_rows_ok[OF assms(1) order_refl ok, of 0, unfolded lg[symmetric] take_all_iff[THEN iffD2, OF order_refl]]
  show ?thesis
    using sr assms(4) by (simp add: validateInitialization_def assms(2)[symmetric] lg tiles_def)
qed

section \<open>A game in progress never raises\<close>

text \<open>
  \<open>initializeGame\<close> and \<open>move\<close> wrap their bodies in \<open>try\<close>; the model reports an
  exception raised there as \<open>Inl\<close> and stops at the \<open>catch\<close>. The lemmas of this section
  show that this outcome does not occur in a game in progress: from an engine built by the
  constructor, with draws in \<open>[0, 1)\<close>, \<open>initializeGame\<close> runs to its end, and so does
  every \<open>move\<close> after it, each leaving a game in progress again.
\<close>

lemma initializeGame_step:
  assumes "board e < length h"
    and e2_def: "e2 = (validateGameState e)\<lparr>score_e := 0, isWin := False, isGameOver := False,
                  moveCount := 0, previousState := None, errorCount := 0, lastError := None\<rparr>"
    and b1_def: "b1 = initialize (h ! board e)"
  shows "initializeGame e h g =
     (case addRandomTile b1 g of
        Inl err \<Rightarrow> Inl err
      | Inr (_, b2, g2) \<Rightarrow>
          (case addRandomTile b2 g2 of
             Inl err \<Rightarrow> Inl err
           | Inr (_, b3, g3) \<Rightarrow>
               (case validateInitialization e2 (h[board e := b3]) of
                  Inl err \<Rightarrow> Inl err
                | Inr _ \<Rightarrow> Inr (e2, h[board e := b3], g3))))"
proof -
  define e1 where "e1 = validateGameState e"
  have e1: "board e1 = board e"
    by (simp add: e1_def validateGameState_def Let_def)
  have e2': "e2 = e1\<lparr>score_e := 0, isWin := False, isGameOver := False,
                  moveCount := 0, previousState := None, errorCount := 0, lastError := None\<rparr>"
    by (simp add: e2_def e1_def)
  have e2b: "board e2 = board e" by (simp add: e2' e1)
  show ?thesis
    using assms(1)
    by (simp add: initializeGame_def Let_def e1_def[symmetric] e1 e2'[symmetric] e2b
          b1_def[symmetric] split: sum.split prod.split)
qed

lemma zeros_cells:
  "i < size_b b \<Longrightarrow> j < size_b b \<Longrightarrow> grid (initialize b) ! i ! j = Num 0"
  by (simp add: initialize_def)

lemma tiles_initialize: "tiles (initialize b) = []"
  by (auto simp: tiles_def initialize_def filter_empty_conv)

lemma allCells_initialize: "allCells (\<lambda>c. c = Num 0 \<or> c = Num 2 \<or> c = Num 4) (grid (initialize b))"
  by (auto simp: allCells_def initialize_def)

lemma initializeGame_succeeds:
  assumes "board e < length h" "size_b (h ! board e) = size_e e" "2 \<le> size_e e" "rng_ok g"
  shows "\<exists>e' h' g'. initializeGame e h g = Inr (e', h', g') \<and> game_ok e' h' \<and> rng_ok g' \<and>
           size_e e' = size_e e \<and> board e' = board e"
proof -
  let ?n = "size_e e"
  let ?ok = "\<lambda>c. c = Num 0 \<or> c = Num 2 \<or> c = Num 4"
  define e2 where "e2 = (validateGameState e)\<lparr>score_e := 0, isWin := False, isGameOver := False,
                  moveCount := 0, previousState := None, errorCount := 0, lastError := None\<rparr>"
  define b1 where "b1 = initialize (h ! board e)"
  note step = initializeGame_step[OF assms(1) e2_def b1_def, of g]
  have e2: "board e2 = board e" "size_e e2 = size_e e" "score_e e2 = 0" "moveCount e2 = 0"
    by (simp_all add: e2_def validateGameState_def Let_def)
  have w1: "wf_board b1" "size_b b1 = ?n"
    by (simp_all add: b1_def wf_initialize assms(2))
  have z1: "\<And>i j. i < ?n \<Longrightarrow> j < ?n \<Longrightarrow> grid b1 ! i ! j = Num 0"
    by (simp add: b1_def zeros_cells assms(2))
  have "(0, 0) \<in> set (getEmptyCells b1)"
    using assms(3) z1[of 0 0] by (simp add: set_getEmptyCells w1(2))
  then have ne1: "getEmptyCells b1 \<noteq> []" by auto
  obtain o2 b2 g2 i j v where a1: "addRandomTile b1 g = Inr (o2, b2, g2)" and g2: "rng_ok g2"
    and ij: "(i, j) \<in> set (getEmptyCells b1)" and v: "v = Num 2 \<or> v = Num 4"
    and b2: "b2 = setCell b1 (int i) (int j) v"
    using addRandomTile_returns[OF assms(4), of b1] ne1 by auto
  have ij': "i < ?n" "j < ?n" using ij by (simp_all add: set_getEmptyCells w1(2))
  have w2: "wf_board b2" "size_b b2 = ?n" using w1 by (simp_all add: b2 wf_setCell)
  have c2: "\<And>x y. x < ?n \<Longrightarrow> y < ?n \<Longrightarrow>
      grid b2 ! x ! y = (if x = i \<and> y = j then v else Num 0)"
    using nth_setCell[OF w1(1), of i j _ _ v] ij' z1 by (simp add: b2 w1(2))
  have "length (tiles (setCell b1 (int i) (int j) v)) = Suc (length (tiles b1))"
    by (rule tiles_setCell[OF w1(1)]) (use ij' z1 v in \<open>auto simp: w1(2)\<close>)
  then have t2: "length (tiles b2) = 1"
    by (simp add: b2 b1_def tiles_initialize)
  have k2: "allCells ?ok (grid b2)"
    unfolding b2 using allCells_initialize v by (intro allCells_setCell) (auto simp: b1_def)
  obtain p q where pq: "p < ?n" "q < ?n" "(p, q) \<noteq> (i, j)"
  proof (cases "(i, j) = (0, 0)")
    case True
    then show ?thesis using that[of 0 1] assms(3) by simp
  next
    case False
    then show ?thesis using that[of 0 0] assms(3) by simp
  qed
  have "(p, q) \<in> set (getEmptyCells b2)"
    using pq c2[of p q] by (auto simp: set_getEmptyCells w2(2))
  then have ne2: "getEmptyCells b2 \<noteq> []" by auto
  obtain o3 b3 g3 i' j' v' where a2: "addRandomTile b2 g2 = Inr (o3, b3, g3)" and g3: "rng_ok g3"
    and ij2: "(i', j') \<in> set (getEmptyCells b2)" and v': "v' = Num 2 \<or> v' = Num 4"
    and b3: "b3 = setCell b2 (int i') (int j') v'"
    using addRandomTile_returns[OF g2, of b2] ne2 by auto
  have ij2': "i' < ?n" "j' < ?n" "grid b2 ! i' ! j' = Num 0"
    using ij2 by (simp_all add: set_getEmptyCells w2(2))
  have w3: "wf_board b3" "size_b b3 = ?n" using w2 by (simp_all add: b3 wf_setCell)
  have "length (tiles (setCell b2 (int i') (int j') v')) = Suc (length (tiles b2))"
    by (rule tiles_setCell[OF w2(1)]) (use ij2' v' in \<open>auto simp: w2(2)\<close>)
  then have t3: "length (tiles b3) = 2"
    by (simp add: b3 t2)
  have k3: "allCells ?ok (grid b3)"
    unfolding b3 using k2 v' by (intro allCells_setCell) auto
  have n3: "natural b3"
    using k3 by (fastforce simp: natural_allCells allCells_def)
  let ?h' = "h[board e := b3]"
  have hb: "?h' ! board e2 = b3" using assms(1) e2 by simp
  have vi: "validateInitialization e2 ?h' = Inr ()"
  proof (rule validateInitialization_passes)
    show "wf_board (?h' ! board e2)" unfolding hb by (rule w3(1))
    show "size_b (?h' ! board e2) = size_e e2" unfolding hb e2(2) by (rule w3(2))
    show "allCells ?ok (grid (?h' ! board e2))" unfolding hb by (rule k3)
    show "length (tiles (?h' ! board e2)) = 2" unfolding hb by (rule t3)
  qed
  have "initializeGame e h g = Inr (e2, ?h', g3)"
    by (simp add: step a1 a2 vi)
  moreover have "game_ok e2 ?h'"
    unfolding game_ok_def engine_ok_def hb
    using assms(1,3) w3 n3 e2 by simp
  ultimately show ?thesis using g3 e2 by blast
qed

lemma move_returns:
  assumes "game_ok e h" "rng_ok g"
  shows "\<exists>answer e' h' g'. move e h direction g = Inr (answer, e', h', g') \<and>
           game_ok e' h' \<and> rng_ok g'"
proof (cases "\<not> validateDirection direction \<or> isWin e \<or> isGameOver e")
  case True
  then have "move e h direction g = Inr (False, e, h, g)" by (auto simp: move_def)
  then show ?thesis using assms by blast
next
  case False
  let ?b = "h ! board e"
  have ok: "engine_ok e h" and sz: "2 \<le> size_e e" and nat: "natural ?b"
    using assms(1) by (simp_all add: game_ok_def)
  have e: "board e < length h" "wf_board ?b" "size_b ?b = size_e e"
    "0 \<le> score_e e" "0 \<le> moveCount e"
    using ok by (simp_all add: engine_ok_def)
  obtain f where f: "moveFor direction = Some f"
    using False validateDirection_moveFor by blast
  define b3 where "b3 = fst (f ?b)"
  define res where "res = snd (f ?b)"
  define e2 where "e2 = fst (saveState e h)"
  define h3 where "h3 = (h @ [clone ?b])[board e := b3]"
  define e3 where "e3 = e2\<lparr>score_e := score_e e2 + score res, moveCount := moveCount e2 + 1\<rparr>"
  have nw: "\<not> isWin e" and ng: "\<not> isGameOver e" using False by simp_all
  note step = move_step[OF ok nw ng f b3_def res_def e2_def h3_def e3_def, of g]
  have wf3: "wf_board b3" "size_b b3 = size_e e"
    using moveFor_props[OF f e(2)] e(3) by (simp_all add: b3_def)
  have n3: "natural b3" and sc: "0 \<le> score res"
    using moveFor_natural[OF f e(2) nat] by (simp_all add: b3_def res_def)
  show ?thesis
  proof (cases "moved res")
    case False
    have m: "move e h direction g = Inr (False, e2, h3, g)" using False by (simp add: step)
    have e2: "board e2 = board e" "size_e e2 = size_e e" "score_e e2 = score_e e"
      "moveCount e2 = moveCount e"
      by (simp_all add: e2_def saveState_eq)
    have "h3 ! board e2 = b3" "board e2 < length h3" using e(1) by (simp_all add: h3_def e2)
    then have "game_ok e2 h3"
      using wf3 n3 sz e e2 by (simp add: game_ok_def engine_ok_def)
    then show ?thesis using m assms(2) by blast
  next
    case True
    obtain okt b4 g4 where a: "addRandomTile b3 g = Inr (okt, b4, g4)" and g4: "rng_ok g4"
      and b4: "if getEmptyCells b3 = [] then \<not> okt \<and> b4 = b3
           else okt \<and> (\<exists>i j v. (i, j) \<in> set (getEmptyCells b3) \<and> (v = Num 2 \<or> v = Num 4) \<and>
                         b4 = setCell b3 (int i) (int j) v)"
      using addRandomTile_returns[OF assms(2), of b3] by blast
    have n4: "natural b4"
    proof (cases "getEmptyCells b3 = []")
      case True
      then show ?thesis using b4 n3 by simp
    next
      case False
      then obtain i j v where "v = Num 2 \<or> v = Num 4" "b4 = setCell b3 (int i) (int j) v"
        using b4 by auto
      then show ?thesis using n3 by (auto intro: natural_setCell)
    qed
    obtain e6 h6 where c: "checkGameOverCondition (checkWinCondition e3 (h3[board e := b4]))
        (h3[board e := b4]) = (e6, h6)"
      by (cases "checkGameOverCondition (checkWinCondition e3 (h3[board e := b4])) (h3[board e := b4])")
    have m: "move e h direction g = Inr (True, e6, h6, g4)"
      using True sc by (simp add: step validateMoveResult_def a c)
    note r = move_True_result[OF ok m]
    obtain f' okt' where "moveFor direction = Some f'"
      "addRandomTile (fst (f' ?b)) g = Inr (okt', h6 ! board e6, g4)"
      using r(12) by blast
    then have hb: "h6 ! board e6 = b4" using f a by (simp add: b3_def)
    have "engine_ok e6 h6"
      using r(5,6,7,10,11) e(4,5) by (simp add: engine_ok_def)
    then have "game_ok e6 h6" using r(4) sz n4 hb by (simp add: game_ok_def)
    then show ?thesis using m g4 by blast
  qed
qed

lemma new_GameEngine_ok:
  assumes "new_GameEngine h n = Inr (e, h')"
  shows "game_ok e h'" "2 \<le> n" "n \<le> 10" "size_e e = nat n"
proof -
  have n: "2 \<le> n" "n \<le> 10" and e: "e = \<lparr>size_e = nat n, board = length h, score_e = 0, isWin = False,
                 isGameOver = False, moveCount = 0, previousState = None,
                 errorCount = 0, maxErrors = 10, lastError = None\<rparr>"
    and h': "h' = h @ [new_Board (nat n)]"
    using assms by (auto simp: new_GameEngine_def validateSize_def split: if_splits)
  show "2 \<le> n" "n \<le> 10" by (rule n)+
  show "size_e e = nat n" by (simp add: e)
  have "natural (new_Board (nat n))"
    by (auto simp: natural_def new_Board_def initialize_def list_all_iff)
  moreover have "size_b (new_Board (nat n)) = nat n"
    by (simp add: new_Board_def initialize_def)
  ultimately show "game_ok e h'"
    using n by (simp add: game_ok_def engine_ok_def e h' wf_new_Board)
qed

text \<open>Hence a caller's whole sequence of moves is answered, whatever the directions.\<close>

lemma moves_return:
  assumes "game_ok e h" "rng_ok g"
  shows "\<exists>answers e' h' g'. moves e h g ds = Inr (answers, e', h', g') \<and>
           length answers = length ds \<and> game_ok e' h' \<and> rng_ok g'"
  using assms
proof (induction ds arbitrary: e h g)
  case Nil
  then show ?case by simp
next
  case (Cons d ds)
  obtain a e1 h1 g1 where m: "move e h d g = Inr (a, e1, h1, g1)"
    and ok1: "game_ok e1 h1" "rng_ok g1"
    using move_returns[OF Cons.prems] by blast
  obtain as e2 h2 g2 where r: "moves e1 h1 g1 ds = Inr (as, e2, h2, g2)"
    and ok2: "length as = length ds" "game_ok e2 h2" "rng_ok g2"
    using Cons.IH[OF ok1] by blast
  have "moves e h g (d # ds) = Inr (a # as, e2, h2, g2)" by (simp add: m r)
  then show ?case using ok2 by simp
qed

section \<open>Worked merges and moves\<close>

text \<open>
  Claim C3. \<open>mergeLine\<close> on \<open>[2, 2, 4]\<close> answers the line \<open>[4, 4]\<close> with score 4, and on
  \<open>[2, 2, 2, 2]\<close> the line \<open>[4, 4]\<close> with score 8: the pass is a single one, and a 4 it
  has just produced is not merged with the 4 that follows.
\<close>

theorem mergeLine_examples:
  "mergeLine [Num 2, Num 2, Num 4] = ([Num 4, Num 4], 4) \<and>
   mergeLine [Num 2, Num 2, Num 2, Num 2] = ([Num 4, Num 4], 8)"
  by code_simp

text \<open>
  Claim C4. On a board of size 4 whose only non-zero row, at any of the four row
  positions \<open>i\<close>, is \<open>[2, 0, 2, 0]\<close>, \<open>moveRight\<close> turns that row into \<open>[0, 0, 0, 4]\<close>,
  leaves the other rows empty and answers \<open>{moved: true, score: 4}\<close>.
\<close>

theorem moveRight_single_row:
  "i < 4 \<Longrightarrow>
   moveRight (numbers ((replicate 4 [0, 0, 0, 0])[i := [2, 0, 2, 0]])) =
     (numbers ((replicate 4 [0, 0, 0, 0])[i := [0, 0, 0, 4]]),
      \<lparr>moved = True, score = 4\<rparr>)"
proof -
  assume "i < 4"
  then consider "i = 0" | "i = 1" | "i = 2" | "i = 3" by linarith
  then show ?thesis
  proof cases
    case 1 show ?thesis unfolding 1 by code_simp
  next
    case 2 show ?thesis unfolding 2 by code_simp
  next
    case 3 show ?thesis unfolding 3 by code_simp
  next
    case 4 show ?thesis unfolding 4 by code_simp
  qed
qed

theorem moveRight_single_row_witness:
  "(2::nat) < 4 \<and>
   moveRight (numbers [[0, 0, 0, 0], [0, 0, 0, 0], [2, 0, 2, 0], [0, 0, 0, 0]]) =
     (numbers [[0, 0, 0, 0], [0, 0, 0, 0], [0, 0, 0, 4], [0, 0, 0, 0]],
      \<lparr>moved = True, score = 4\<rparr>)"
  using moveRight_single_row [of 2] by (simp add: numeral_eq_Suc)

section \<open>Cell access outside the grid\<close>

text \<open>
  Claim C9. For every board and all integer indices, when \<open>row\<close> or \<open>col\<close> lies outside
  \<open>0 .. size - 1\<close>, \<open>getCell\<close> answers the \<open>null\<close> sentinel (it returns before it touches
  the grid, so nothing can be raised) and \<open>setCell\<close> leaves the whole board as it was.
\<close>

theorem cell_access_out_of_range:
  "row < 0 \<or> row \<ge> int (size_b b) \<or> col < 0 \<or> col \<ge> int (size_b b) \<Longrightarrow>
   getCell b row col = Null \<and> setCell b row col v = b"
  by (auto simp: getCell_def setCell_def)

theorem cell_access_out_of_range_witness:
  "((-1::int) < 0 \<or> (-1::int) \<ge> int (size_b (new_Board 4)) \<or>
    (7::int) < 0 \<or> (7::int) \<ge> int (size_b (new_Board 4))) \<and>
   getCell (new_Board 4) (-1) 7 = Null \<and>
   setCell (new_Board 4) (-1) 7 (Num 2) = new_Board 4"
  using cell_access_out_of_range [of "-1" "new_Board 4" 7 "Num 2"] by simp

section \<open>Repeating a move to the left\<close>

text \<open>
  Claim C1 says that a second \<open>moveLeft\<close> never moves. It does when the first one leaves
  two equal tiles side by side: \<open>[2, 2, 4, 0]\<close> becomes \<open>[4, 4, 0, 0]\<close>, which the second
  call merges into \<open>[8, 0, 0, 0]\<close> and reports as moved.
\<close>

theorem moveLeft_twice_counterexample:
  "wf_board (numbers [[2, 2, 4, 0], [0, 0, 0, 0], [0, 0, 0, 0], [0, 0, 0, 0]]) \<and>
   moveLeft (numbers [[2, 2, 4, 0], [0, 0, 0, 0], [0, 0, 0, 0], [0, 0, 0, 0]]) =
     (numbers [[4, 4, 0, 0], [0, 0, 0, 0], [0, 0, 0, 0], [0, 0, 0, 0]],
      \<lparr>moved = True, score = 4\<rparr>) \<and>
   moveLeft (numbers [[4, 4, 0, 0], [0, 0, 0, 0], [0, 0, 0, 0], [0, 0, 0, 0]]) =
     (numbers [[8, 0, 0, 0], [0, 0, 0, 0], [0, 0, 0, 0], [0, 0, 0, 0]],
      \<lparr>moved = True, score = 8\<rparr>) \<and>
   moved (snd (moveLeft (fst (moveLeft
     (numbers [[2, 2, 4, 0], [0, 0, 0, 0], [0, 0, 0, 0], [0, 0, 0, 0]])))))"
  by code_simp

text \<open>
  Claim C1, amended. On a board of numbers, the second of two \<open>moveLeft\<close> calls answers
  \<open>moved = false\<close> exactly when the first call left no row with two equal non-zero cells
  next to each other.
\<close>

theorem moveLeft_twice:
  assumes "wf_board b" "numeric b"
  shows "moved (snd (moveLeft (fst (moveLeft b)))) \<longleftrightarrow>
         list_ex adjacentEqual (grid (fst (moveLeft b)))"
proof -
  let ?n = "size_b b"
  let ?b1 = "b\<lparr>grid := map (slideRow ?n) (grid b)\<rparr>"
  have w1: "wf_board ?b1" using assms(1) by (rule wf_map_slide)
  have rows: "\<And>r. r \<in> set (grid b) \<Longrightarrow>
      (slideRow ?n (slideRow ?n r) \<noteq> slideRow ?n r) = adjacentEqual (slideRow ?n r)"
  proof (rule slideRow_twice)
    fix r assume r: "r \<in> set (grid b)"
    show "\<forall>c\<in>set r. c \<noteq> Null" using assms(2) r by (simp add: numeric_def list_all_iff)
    show "length r \<le> ?n" using wf_rows[OF assms(1) r] by simp
  qed
  have "moved (snd (moveLeft ?b1)) \<longleftrightarrow>
      (\<exists>r\<in>set (grid b). slideRow ?n (slideRow ?n r) \<noteq> slideRow ?n r)"
    unfolding moveLeft_eq[OF w1] by auto
  also have "\<dots> \<longleftrightarrow> (\<exists>r\<in>set (grid b). adjacentEqual (slideRow ?n r))"
    using rows by blast
  also have "\<dots> \<longleftrightarrow> list_ex adjacentEqual (grid ?b1)"
    by (auto simp: list_ex_iff)
  finally show ?thesis unfolding moveLeft_eq[OF assms(1)] fst_conv .
qed

theorem moveLeft_twice_witness:
  "wf_board (numbers [[2, 2, 4, 0], [2, 0, 0, 2], [0, 4, 2, 0], [0, 0, 0, 0]]) \<and>
   numeric (numbers [[2, 2, 4, 0], [2, 0, 0, 2], [0, 4, 2, 0], [0, 0, 0, 0]]) \<and>
   moved (snd (moveLeft (fst (moveLeft
     (numbers [[2, 2, 4, 0], [2, 0, 0, 2], [0, 4, 2, 0], [0, 0, 0, 0]]))))) \<and>
   list_ex adjacentEqual (grid (fst (moveLeft
     (numbers [[2, 2, 4, 0], [2, 0, 0, 2], [0, 4, 2, 0], [0, 0, 0, 0]]))))"
proof -
  have w: "wf_board (numbers [[2, 2, 4, 0], [2, 0, 0, 2], [0, 4, 2, 0], [0, 0, 0, 0]])"
    by code_simp
  have n: "numeric (numbers [[2, 2, 4, 0], [2, 0, 0, 2], [0, 4, 2, 0], [0, 0, 0, 0]])"
    by code_simp
  have a: "list_ex adjacentEqual (grid (fst (moveLeft
      (numbers [[2, 2, 4, 0], [2, 0, 0, 2], [0, 4, 2, 0], [0, 0, 0, 0]]))))"
    by code_simp
  show ?thesis using moveLeft_twice[OF w n] w n a by simp
qed

section \<open>Probing a move\<close>

text \<open>
  Claim C2. Take a clone \<open>c\<close> of the board behind \<open>r\<close>, then call \<open>canMove\<close> on \<open>r\<close>
  with any direction (the four valid ones included): afterwards the board behind \<open>r\<close>
  is in the state it had, and \<open>equals\<close> finds it cell-wise equal to the clone.
\<close>

theorem canMove_leaves_board:
  assumes "r < length h" "wf_board (h ! r)"
    and "clone_ref h r = (h0, c)" "canMove h0 r direction = (h', can)"
  shows "h' ! r = h ! r \<and> equals (h' ! r) (h' ! c)"
proof -
  have h0: "h0 = h @ [clone (h ! r)]" "c = length h"
    using assms(3) by (auto simp: clone_ref_def)
  have "\<forall>i<length h0. h' ! i = h0 ! i" using canMove_store[OF assms(4)] by blast
  then have "h' ! r = h0 ! r" "h' ! c = h0 ! c" using assms(1) h0 by auto
  then have "h' ! r = h ! r" "h' ! c = clone (h ! r)"
    using assms(1) h0 by (auto simp: nth_append)
  then show ?thesis using clone_eq[OF assms(2)] equals_refl by simp
qed

theorem canMove_leaves_board_witness:
  "(0::nat) < length [numbers [[2, 4], [2, 4]]] \<and>
   wf_board ([numbers [[2, 4], [2, 4]]] ! 0) \<and>
   clone_ref [numbers [[2, 4], [2, 4]]] 0 =
     ([numbers [[2, 4], [2, 4]], numbers [[2, 4], [2, 4]]], 1) \<and>
   canMove [numbers [[2, 4], [2, 4]], numbers [[2, 4], [2, 4]]] 0 (Str ''down'') =
     ([numbers [[2, 4], [2, 4]], numbers [[2, 4], [2, 4]], numbers [[0, 0], [4, 8]]], True) \<and>
   [numbers [[2, 4], [2, 4]], numbers [[2, 4], [2, 4]], numbers [[0, 0], [4, 8]]] ! 0 =
     [numbers [[2, 4], [2, 4]]] ! 0 \<and>
   equals ([numbers [[2, 4], [2, 4]], numbers [[2, 4], [2, 4]], numbers [[0, 0], [4, 8]]] ! 0)
     ([numbers [[2, 4], [2, 4]], numbers [[2, 4], [2, 4]], numbers [[0, 0], [4, 8]]] ! 1)"
proof -
  have l: "(0::nat) < length [numbers [[2, 4], [2, 4]]]" by simp
  have w: "wf_board ([numbers [[2, 4], [2, 4]]] ! 0)" by code_simp
  have c: "clone_ref [numbers [[2, 4], [2, 4]]] 0 =
     ([numbers [[2, 4], [2, 4]], numbers [[2, 4], [2, 4]]], 1)" by code_simp
  have m: "canMove [numbers [[2, 4], [2, 4]], numbers [[2, 4], [2, 4]]] 0 (Str ''down'') =
     ([numbers [[2, 4], [2, 4]], numbers [[2, 4], [2, 4]], numbers [[0, 0], [4, 8]]], True)"
    by code_simp
  show ?thesis using canMove_leaves_board[OF l w c m] l w c m by simp
qed

section \<open>Totals are kept\<close>



section \<open>Rejected moves\<close>

text \<open>
  Claim C5. For every engine and every argument, \<open>move\<close> answers false, keeps the board,
  the score, the move count and both flags, and spawns no tile (the board is as it was and
  no random number is drawn), whenever the argument is not one of the four directions, or
  the game is won or lost, or the move routine for the direction changes no cell.
\<close>

theorem move_rejected:
  assumes "engine_ok e h"
    and "\<not> validateDirection direction \<or> isWin e \<or> isGameOver e \<or>
         (case moveFor direction of
            None \<Rightarrow> False
          | Some f \<Rightarrow> grid (fst (f (h ! board e))) = grid (h ! board e))"
  shows "\<exists>e' h'. move e h direction g = Inr (False, e', h', g) \<and>
           board e' = board e \<and> h' ! board e' = h ! board e \<and>
           score_e e' = score_e e \<and> moveCount e' = moveCount e \<and>
           isWin e' = isWin e \<and> isGameOver e' = isGameOver e"
proof (cases "\<not> validateDirection direction \<or> isWin e \<or> isGameOver e")
  case True
  then have "move e h direction g = Inr (False, e, h, g)"
    by (auto simp: move_def)
  then show ?thesis by simp
next
  case False
  then obtain f where f: "moveFor direction = Some f"
    and same: "grid (fst (f (h ! board e))) = grid (h ! board e)"
    using assms(2) by (auto split: option.splits)
  let ?b = "h ! board e"
  have ok: "board e < length h" "wf_board ?b" "0 \<le> score_e e" "0 \<le> moveCount e"
    using assms(1) by (simp_all add: engine_ok_def)
  have v: "validateGameState e = e" using ok by (simp add: validateGameState_ok)
  have nm: "\<not> moved (snd (f ?b))" using moveFor_props(3)[OF f ok(2)] same by simp
  have eq: "fst (f ?b) = ?b"
    using moveFor_props(2)[OF f ok(2)] same by (rule board_unchanged)
  define e2 where "e2 = fst (saveState e h)"
  define h2 where "h2 = snd (saveState e h)"
  have s: "saveState e h = (e2, h2)" by (simp add: e2_def h2_def)
  have e2: "board e2 = board e" "score_e e2 = score_e e" "moveCount e2 = moveCount e"
    "isWin e2 = isWin e" "isGameOver e2 = isGameOver e"
    by (simp_all add: e2_def saveState_def clone_ref_def)
  have h2: "h2 = h @ [clone ?b]" by (simp add: h2_def saveState_def clone_ref_def)
  have h2b: "h2 ! board e = ?b" using ok(1) by (simp add: h2 nth_append)
  have c: "call f h2 (board e2) = (h2[board e := fst (f ?b)], snd (f ?b))"
    by (simp add: call_def e2(1) h2b split: prod.splits)
  have "move e h direction g = Inr (False, e2, h2[board e := fst (f ?b)], g)"
    using False nm by (simp add: move_def v s f c)
  moreover have "h2[board e := fst (f ?b)] ! board e2 = ?b"
    using ok(1) eq by (simp add: e2(1) h2)
  ultimately show ?thesis using e2 by simp
qed

theorem move_rejected_witness:
  "engine_ok 
     \<lparr>size_e = 2, board = 0, score_e = 4, isWin = False, isGameOver = False,
       moveCount = 1, previousState = None, errorCount = 0, maxErrors = 10,
       lastError = None\<rparr> [numbers [[2, 0], [4, 0]]] \<and>
   (case moveFor (Str ''left'') of
      None \<Rightarrow> False
    | Some f \<Rightarrow>
        grid (fst (f ([numbers [[2, 0], [4, 0]]] ! board 
     \<lparr>size_e = 2, board = 0, score_e = 4, isWin = False, isGameOver = False,
       moveCount = 1, previousState = None, errorCount = 0, maxErrors = 10,
       lastError = None\<rparr>))) =
        grid ([numbers [[2, 0], [4, 0]]] ! board 
     \<lparr>size_e = 2, board = 0, score_e = 4, isWin = False, isGameOver = False,
       moveCount = 1, previousState = None, errorCount = 0, maxErrors = 10,
       lastError = None\<rparr>)) \<and>
   (\<exists>e' h'. move 
     \<lparr>size_e = 2, board = 0, score_e = 4, isWin = False, isGameOver = False,
       moveCount = 1, previousState = None, errorCount = 0, maxErrors = 10,
       lastError = None\<rparr> [numbers [[2, 0], [4, 0]]] (Str ''left'') (\<lambda>_. 0) =
               Inr (False, e', h', \<lambda>_. 0) \<and>
            h' ! board e' = numbers [[2, 0], [4, 0]] \<and> score_e e' = 4 \<and> moveCount e' = 1 \<and>
            \<not> isWin e' \<and> \<not> isGameOver e')"
proof -
  have ok: "engine_ok 
     \<lparr>size_e = 2, board = 0, score_e = 4, isWin = False, isGameOver = False,
       moveCount = 1, previousState = None, errorCount = 0, maxErrors = 10,
       lastError = None\<rparr> [numbers [[2, 0], [4, 0]]]"
    by code_simp
  have same: "(case moveFor (Str ''left'') of
      None \<Rightarrow> False
    | Some f \<Rightarrow>
        grid (fst (f ([numbers [[2, 0], [4, 0]]] ! board 
     \<lparr>size_e = 2, board = 0, score_e = 4, isWin = False, isGameOver = False,
       moveCount = 1, previousState = None, errorCount = 0, maxErrors = 10,
       lastError = None\<rparr>))) =
        grid ([numbers [[2, 0], [4, 0]]] ! board 
     \<lparr>size_e = 2, board = 0, score_e = 4, isWin = False, isGameOver = False,
       moveCount = 1, previousState = None, errorCount = 0, maxErrors = 10,
       lastError = None\<rparr>))"
    by code_simp
  have "\<exists>e' h'. move 
     \<lparr>size_e = 2, board = 0, score_e = 4, isWin = False, isGameOver = False,
       moveCount = 1, previousState = None, errorCount = 0, maxErrors = 10,
       lastError = None\<rparr> [numbers [[2, 0], [4, 0]]] (Str ''left'') (\<lambda>_. 0) =
               Inr (False, e', h', \<lambda>_. 0) \<and>
            board e' = board 
     \<lparr>size_e = 2, board = 0, score_e = 4, isWin = False, isGameOver = False,
       moveCount = 1, previousState = None, errorCount = 0, maxErrors = 10,
       lastError = None\<rparr> \<and>
            h' ! board e' = [numbers [[2, 0], [4, 0]]] ! board 
     \<lparr>size_e = 2, board = 0, score_e = 4, isWin = False, isGameOver = False,
       moveCount = 1, previousState = None, errorCount = 0, maxErrors = 10,
       lastError = None\<rparr> \<and>
            score_e e' = score_e 
     \<lparr>size_e = 2, board = 0, score_e = 4, isWin = False, isGameOver = False,
       moveCount = 1, previousState = None, errorCount = 0, maxErrors = 10,
       lastError = None\<rparr> \<and> moveCount e' = moveCount 
     \<lparr>size_e = 2, board = 0, score_e = 4, isWin = False, isGameOver = False,
       moveCount = 1, previousState = None, errorCount = 0, maxErrors = 10,
       lastError = None\<rparr> \<and>
            isWin e' = isWin 
     \<lparr>size_e = 2, board = 0, score_e = 4, isWin = False, isGameOver = False,
       moveCount = 1, previousState = None, errorCount = 0, maxErrors = 10,
       lastError = None\<rparr> \<and> isGameOver e' = isGameOver 
     \<lparr>size_e = 2, board = 0, score_e = 4, isWin = False, isGameOver = False,
       moveCount = 1, previousState = None, errorCount = 0, maxErrors = 10,
       lastError = None\<rparr>"
    using ok same by (intro move_rejected) blast+
  then show ?thesis using ok same by auto
qed

section \<open>A new game\<close>

text \<open>
  Claim C6. When \<open>initializeGame\<close> (or \<open>restart\<close>, which is the same call) runs to its end,
  the grid holds exactly two non-zero cells, each a 2 or a 4, the score and the move count
  are 0, and neither flag is raised.
\<close>

theorem initializeGame_result:
  assumes "board e < length h" "size_b (h ! board e) = size_e e"
    and "initializeGame e h g = Inr (e', h', g') \<or> restart e h g = Inr (e', h', g')"
  shows "length (tiles (h' ! board e')) = 2 \<and> set (tiles (h' ! board e')) \<subseteq> {Num 2, Num 4} \<and>
         score_e e' = 0 \<and> moveCount e' = 0 \<and> \<not> isWin e' \<and> \<not> isGameOver e'"
proof -
  have ini: "initializeGame e h g = Inr (e', h', g')" using assms(3) by (auto simp: restart_def)
  define e1 where "e1 = validateGameState e"
  have e1: "board e1 = board e" "size_e e1 = size_e e"
    by (simp_all add: e1_def validateGameState_def Let_def)
  define b1 where "b1 = initialize (h ! board e)"
  define e2 where "e2 = e1\<lparr>score_e := 0, isWin := False, isGameOver := False, moveCount := 0,
                  previousState := None, errorCount := 0, lastError := None\<rparr>"
  have e2: "board e2 = board e" "size_e e2 = size_e e" "score_e e2 = 0" "moveCount e2 = 0"
    "\<not> isWin e2" "\<not> isGameOver e2"
    by (simp_all add: e2_def e1)
  have w1: "wf_board b1" "size_b b1 = size_e e"
    by (simp_all add: b1_def wf_initialize assms(2))
  have step: "initializeGame e h g =
     (case addRandomTile b1 g of
        Inl err \<Rightarrow> Inl err
      | Inr (_, b2, g2) \<Rightarrow>
          (case addRandomTile b2 g2 of
             Inl err \<Rightarrow> Inl err
           | Inr (_, b3, g3) \<Rightarrow>
               (case validateInitialization e2 (h[board e := b3]) of
                  Inl err \<Rightarrow> Inl err
                | Inr _ \<Rightarrow> Inr (e2, h[board e := b3], g3))))"
    using assms(1)
    by (simp add: initializeGame_def Let_def e1_def[symmetric] e1(1) e2_def[symmetric] e2(1)
          b1_def[symmetric] split: sum.split prod.split)
  obtain o2 b2 g2 where a1: "addRandomTile b1 g = Inr (o2, b2, g2)"
    using ini by (cases "addRandomTile b1 g") (auto simp: step)
  obtain o3 b3 g3 where a2: "addRandomTile b2 g2 = Inr (o3, b3, g3)"
    using ini by (cases "addRandomTile b2 g2") (auto simp: step a1)
  have ini2: "(case validateInitialization e2 (h[board e := b3]) of
                 Inl err \<Rightarrow> Inl err
               | Inr _ \<Rightarrow> Inr (e2, h[board e := b3], g3)) = Inr (e', h', g')"
    using ini by (simp add: step a1 a2)
  obtain u where vi: "validateInitialization e2 (h[board e := b3]) = Inr u"
    and fin: "e' = e2" "h' = h[board e := b3]"
    using ini2 by (cases "validateInitialization e2 (h[board e := b3])") auto
  have w2: "wf_board b2" "size_b b2 = size_e e"
    using addRandomTile_shape[OF a1 w1(1)] w1(2) by simp_all
  have w3: "wf_board b3" "size_b b3 = size_e e"
    using addRandomTile_shape[OF a2 w2(1)] w2(2) by simp_all
  have hb: "h' ! board e' = b3" using assms(1) fin e2 by simp
  have "length (tiles (h' ! board e2)) = 2 \<and> set (tiles (h' ! board e2)) \<subseteq> {Num 2, Num 4}"
    using validateInitialization_ok[of h' e2 u] vi hb fin w3 e2 by simp
  then show ?thesis using fin e2 by simp
qed

theorem initializeGame_result_witness:
  "board 
     \<lparr>size_e = 4, board = 0, score_e = 0, isWin = False, isGameOver = False,
       moveCount = 0, previousState = None, errorCount = 0, maxErrors = 10,
       lastError = None\<rparr> < length [new_Board 4] \<and>
   size_b ([new_Board 4] ! board 
     \<lparr>size_e = 4, board = 0, score_e = 0, isWin = False, isGameOver = False,
       moveCount = 0, previousState = None, errorCount = 0, maxErrors = 10,
       lastError = None\<rparr>) = size_e 
     \<lparr>size_e = 4, board = 0, score_e = 0, isWin = False, isGameOver = False,
       moveCount = 0, previousState = None, errorCount = 0, maxErrors = 10,
       lastError = None\<rparr> \<and>
   (\<exists>e' h' g'. initializeGame 
     \<lparr>size_e = 4, board = 0, score_e = 0, isWin = False, isGameOver = False,
       moveCount = 0, previousState = None, errorCount = 0, maxErrors = 10,
       lastError = None\<rparr> [new_Board 4] (\<lambda>_. 0) = Inr (e', h', g') \<and>
       h' = [numbers [[2, 2, 0, 0], [0, 0, 0, 0], [0, 0, 0, 0], [0, 0, 0, 0]]] \<and>
       length (tiles (h' ! board e')) = 2 \<and> set (tiles (h' ! board e')) \<subseteq> {Num 2, Num 4} \<and>
       score_e e' = 0 \<and> moveCount e' = 0 \<and> \<not> isWin e' \<and> \<not> isGameOver e')"
proof -
  have l: "board 
     \<lparr>size_e = 4, board = 0, score_e = 0, isWin = False, isGameOver = False,
       moveCount = 0, previousState = None, errorCount = 0, maxErrors = 10,
       lastError = None\<rparr> < length [new_Board 4]" by simp
  have s: "size_b ([new_Board 4] ! board 
     \<lparr>size_e = 4, board = 0, score_e = 0, isWin = False, isGameOver = False,
       moveCount = 0, previousState = None, errorCount = 0, maxErrors = 10,
       lastError = None\<rparr>) = size_e 
     \<lparr>size_e = 4, board = 0, score_e = 0, isWin = False, isGameOver = False,
       moveCount = 0, previousState = None, errorCount = 0, maxErrors = 10,
       lastError = None\<rparr>" by code_simp
  have "(case initializeGame 
     \<lparr>size_e = 4, board = 0, score_e = 0, isWin = False, isGameOver = False,
       moveCount = 0, previousState = None, errorCount = 0, maxErrors = 10,
       lastError = None\<rparr> [new_Board 4] (\<lambda>_. 0) of
           Inl _ \<Rightarrow> None
         | Inr (e', h', _) \<Rightarrow> Some h') =
        Some [numbers [[2, 2, 0, 0], [0, 0, 0, 0], [0, 0, 0, 0], [0, 0, 0, 0]]]"
    by code_simp
  then obtain e' g' where
    i: "initializeGame 
     \<lparr>size_e = 4, board = 0, score_e = 0, isWin = False, isGameOver = False,
       moveCount = 0, previousState = None, errorCount = 0, maxErrors = 10,
       lastError = None\<rparr> [new_Board 4] (\<lambda>_. 0) =
          Inr (e', [numbers [[2, 2, 0, 0], [0, 0, 0, 0], [0, 0, 0, 0], [0, 0, 0, 0]]], g')"
    by (auto split: sum.splits prod.splits)
  show ?thesis
    using initializeGame_result[OF l s disjI1[OF i]] l s i by blast
qed

section \<open>Winning\<close>

text \<open>
  Claim C7. When a move has been accepted and the grid then holds a 2048, \<open>isWinState\<close>
  answers true; from then on every \<open>move\<close>, whatever the direction and whether or not
  empty cells remain, answers false and leaves engine, boards and random source as they
  were; a \<open>restart\<close> that runs to its end lowers the flag again.
\<close>

theorem win_is_terminal:
  assumes "engine_ok e h" "move e h direction g = Inr (True, e', h', g')"
    and "hasWinningTile (h' ! board e')"
  shows "isWinState e' \<and>
         moves e' h' g' ds = Inr (map (\<lambda>_. False) ds, e', h', g') \<and>
         (\<forall>e'' h'' g''. restart e' h' g' = Inr (e'', h'', g'') \<longrightarrow> \<not> isWinState e'')"
proof -
  have w: "isWin e'" using move_True_result(8)[OF assms(1,2)] assms(3) by simp
  then have "moves e' h' g' ds = Inr (map (\<lambda>_. False) ds, e', h', g')"
    by (simp add: moves_after_end)
  then show ?thesis using w restart_flags by (simp add: isWinState_def)
qed

theorem win_is_terminal_witness:
  "engine_ok 
     \<lparr>size_e = 2, board = 0, score_e = 4, isWin = False, isGameOver = False,
       moveCount = 1, previousState = None, errorCount = 0, maxErrors = 10,
       lastError = None\<rparr> [numbers [[1024, 1024], [0, 0]]] \<and>
   (\<exists>e' h' g'. move 
     \<lparr>size_e = 2, board = 0, score_e = 4, isWin = False, isGameOver = False,
       moveCount = 1, previousState = None, errorCount = 0, maxErrors = 10,
       lastError = None\<rparr> [numbers [[1024, 1024], [0, 0]]] (Str ''left'') (\<lambda>_. 0) =
                  Inr (True, e', h', g') \<and>
       h' ! board e' = numbers [[2048, 2], [0, 0]] \<and>
       hasWinningTile (h' ! board e') \<and> \<not> isFull (h' ! board e') \<and> isWinState e' \<and>
       moves e' h' g' [Str ''left'', Str ''up'', Other] = Inr ([False, False, False], e', h', g'))"
proof -
  have ok: "engine_ok 
     \<lparr>size_e = 2, board = 0, score_e = 4, isWin = False, isGameOver = False,
       moveCount = 1, previousState = None, errorCount = 0, maxErrors = 10,
       lastError = None\<rparr> [numbers [[1024, 1024], [0, 0]]]"
    by code_simp
  have "(case move 
     \<lparr>size_e = 2, board = 0, score_e = 4, isWin = False, isGameOver = False,
       moveCount = 1, previousState = None, errorCount = 0, maxErrors = 10,
       lastError = None\<rparr> [numbers [[1024, 1024], [0, 0]]] (Str ''left'') (\<lambda>_. 0) of
           Inl _ \<Rightarrow> None
         | Inr (r, e', h', _) \<Rightarrow>
             Some (r, h' ! board e', hasWinningTile (h' ! board e'), isFull (h' ! board e'))) =
        Some (True, numbers [[2048, 2], [0, 0]], True, False)"
    by code_simp
  then obtain e' h' g' where
    m: "move 
     \<lparr>size_e = 2, board = 0, score_e = 4, isWin = False, isGameOver = False,
       moveCount = 1, previousState = None, errorCount = 0, maxErrors = 10,
       lastError = None\<rparr> [numbers [[1024, 1024], [0, 0]]] (Str ''left'') (\<lambda>_. 0) = Inr (True, e', h', g')"
    and b: "h' ! board e' = numbers [[2048, 2], [0, 0]]"
    and w: "hasWinningTile (h' ! board e')" and f: "\<not> isFull (h' ! board e')"
    by (auto split: sum.splits prod.splits)
  show ?thesis
    using win_is_terminal[OF ok m w, of "[Str ''left'', Str ''up'', Other]"] ok m b w f
    by auto
qed

section \<open>Losing\<close>

text \<open>
  Claim C8. After a \<open>move\<close> that answered true (which it only does from a state with
  neither flag raised), \<open>isGameOverState\<close> answers true exactly when the grid holds no
  2048, is full, and \<open>canMove\<close> answers false for each of the four directions.
\<close>

theorem gameOver_after_move:
  assumes "engine_ok e h" "move e h direction g = Inr (True, e', h', g')"
  shows "isGameOverState e' \<longleftrightarrow>
           \<not> hasWinningTile (h' ! board e') \<and> isFull (h' ! board e') \<and>
           (\<forall>d\<in>set [Str ''left'', Str ''right'', Str ''up'', Str ''down''].
               \<not> snd (canMove h' (board e') d))"
proof -
  note r = move_True_result[OF assms]
  have "\<And>d. snd (canMove h' (board e') d) = canMoveFlag (h' ! board e') d"
    using r(5) by (rule canMove_flag)
  then show ?thesis
    using r(8,9) by (simp add: directions_def isGameOverState_def)
qed

theorem gameOver_after_move_witness:
  "engine_ok 
     \<lparr>size_e = 2, board = 0, score_e = 4, isWin = False, isGameOver = False,
       moveCount = 1, previousState = None, errorCount = 0, maxErrors = 10,
       lastError = None\<rparr> [numbers [[2, 4], [0, 4]]] \<and>
   (\<exists>e' h' g'. move 
     \<lparr>size_e = 2, board = 0, score_e = 4, isWin = False, isGameOver = False,
       moveCount = 1, previousState = None, errorCount = 0, maxErrors = 10,
       lastError = None\<rparr> [numbers [[2, 4], [0, 4]]] (Str ''left'') (\<lambda>_. 0) =
                  Inr (True, e', h', g') \<and>
       h' ! board e' = numbers [[2, 4], [4, 2]] \<and>
       isGameOverState e' \<and>
       \<not> hasWinningTile (h' ! board e') \<and> isFull (h' ! board e') \<and>
       (\<forall>d\<in>set [Str ''left'', Str ''right'', Str ''up'', Str ''down''].
           \<not> snd (canMove h' (board e') d)))"
proof -
  have ok: "engine_ok 
     \<lparr>size_e = 2, board = 0, score_e = 4, isWin = False, isGameOver = False,
       moveCount = 1, previousState = None, errorCount = 0, maxErrors = 10,
       lastError = None\<rparr> [numbers [[2, 4], [0, 4]]]"
    by code_simp
  have "(case move 
     \<lparr>size_e = 2, board = 0, score_e = 4, isWin = False, isGameOver = False,
       moveCount = 1, previousState = None, errorCount = 0, maxErrors = 10,
       lastError = None\<rparr> [numbers [[2, 4], [0, 4]]] (Str ''left'') (\<lambda>_. 0) of
           Inl _ \<Rightarrow> None
         | Inr (r, e', h', _) \<Rightarrow>
             Some (r, h' ! board e', isGameOverState e')) =
        Some (True, numbers [[2, 4], [4, 2]], True)"
    by code_simp
  then obtain e' h' g' where
    m: "move 
     \<lparr>size_e = 2, board = 0, score_e = 4, isWin = False, isGameOver = False,
       moveCount = 1, previousState = None, errorCount = 0, maxErrors = 10,
       lastError = None\<rparr> [numbers [[2, 4], [0, 4]]] (Str ''left'') (\<lambda>_. 0) = Inr (True, e', h', g')"
    and b: "h' ! board e' = numbers [[2, 4], [4, 2]]"
    and o: "isGameOverState e'"
    by (auto split: sum.splits prod.splits)
  show ?thesis
    using gameOver_after_move[OF ok m] ok m b o by blast
qed

end
